theory Spec2Isabelle
  imports Complex_Main "HOL-Library.Char_ord" "HOL-Library.Sublist" "HOL-Library.Multiset"
begin

section \<open>Strings and the built-ins of the host language\<close>

text \<open>
  The program is Python. A \<^verbatim>\<open>str\<close> is modelled as a \<^typ>\<open>string\<close>; the model covers ASCII
  text, so \<^verbatim>\<open>isdigit\<close>, \<^verbatim>\<open>isalpha\<close> and \<^verbatim>\<open>upper\<close> are the ASCII ones (the
  eighth-bit characters are neither digits nor letters and are left alone by \<^verbatim>\<open>upper\<close>).
  Exceptions are values of \<open>error\<close>; the two \<^verbatim>\<open>ValueError\<close>s of the cipher module
  are kept apart by their origin.
\<close>

datatype error =
    InvalidKey          \<comment> \<open>\<^verbatim>\<open>raise ValueError(f"Invalid key: {key}")\<close> in \<^verbatim>\<open>normalize_key\<close>\<close>
  | SubstringNotFound   \<comment> \<open>the \<^verbatim>\<open>ValueError\<close> of \<^verbatim>\<open>str.index\<close>\<close>
  | SampleTooLarge      \<comment> \<open>the \<^verbatim>\<open>ValueError\<close> of \<^verbatim>\<open>random.sample\<close>\<close>
  | ZeroDivisionError
  | IndexError
  | KeyError

definition is_digit_char :: "char \<Rightarrow> bool" where
  "is_digit_char c = (CHR ''0'' \<le> c \<and> c \<le> CHR ''9'')"

definition is_alpha_char :: "char \<Rightarrow> bool" where
  "is_alpha_char c = ((CHR ''A'' \<le> c \<and> c \<le> CHR ''Z'') \<or> (CHR ''a'' \<le> c \<and> c \<le> CHR ''z''))"

text \<open>\<^verbatim>\<open>s.isdigit()\<close> and \<^verbatim>\<open>s.isalpha()\<close>: false on the empty string.\<close>

definition isdigit :: "string \<Rightarrow> bool" where
  "isdigit s = (s \<noteq> [] \<and> list_all is_digit_char s)"

definition isalpha :: "string \<Rightarrow> bool" where
  "isalpha s = (s \<noteq> [] \<and> list_all is_alpha_char s)"

definition upper_char :: "char \<Rightarrow> char" where
  "upper_char c =
     (if CHR ''a'' \<le> c \<and> c \<le> CHR ''z'' then char_of (of_char c - (32::nat)) else c)"

definition upper :: "string \<Rightarrow> string" where
  "upper s = map upper_char s"

text \<open>\<^verbatim>\<open>str(i)\<close> for a non-negative integer: its decimal digits.\<close>

definition digit_char :: "nat \<Rightarrow> char" where
  "digit_char d = char_of (48 + d)"

fun str_nat :: "nat \<Rightarrow> string" where
  "str_nat n = (if n < 10 then [digit_char n] else str_nat (n div 10) @ [digit_char (n mod 10)])"

declare str_nat.simps [simp del]

text \<open>\<^verbatim>\<open>s.index(sub)\<close>: the first offset at which \<open>sub\<close> occurs, \<^verbatim>\<open>ValueError\<close> when none.\<close>

fun index_str :: "string \<Rightarrow> string \<Rightarrow> nat option" where
  "index_str [] sub = (if sub = [] then Some 0 else None)"
| "index_str (x # xs) sub =
     (if prefix sub (x # xs) then Some 0 else map_option Suc (index_str xs sub))"

text \<open>\<^verbatim>\<open>s.rstrip('X')\<close>: drop the trailing run of the character.\<close>

definition rstrip :: "char \<Rightarrow> string \<Rightarrow> string" where
  "rstrip c s = rev (dropWhile (\<lambda>x. x = c) (rev s))"

text \<open>\<^verbatim>\<open>math.ceil(a / b)\<close> on lengths.\<close>

definition ceil_div :: "nat \<Rightarrow> nat \<Rightarrow> nat" where
  "ceil_div a b = (a + b - 1) div b"

section \<open>cipher.py\<close>

text \<open>
  \<^verbatim>\<open>keyword_to_numeric\<close>: pair every upper-cased character with its position, sort the
  pairs by character (Python's \<^verbatim>\<open>sorted\<close> is stable, as \<^const>\<open>sort_key\<close> is), write
  \<^verbatim>\<open>str(rank)\<close> at the original position of the pair of each rank, and join.
\<close>

definition keyword_to_numeric :: "string \<Rightarrow> string" where
  "keyword_to_numeric keyword =
     (let indexed_chars = zip (map upper_char keyword) [0..<length keyword];
          sorted_chars = sort_key fst indexed_chars;
          numeric_key =
            fold (\<lambda>(rank, (ch, original_idx)) nk. nk[original_idx := str_nat rank])
              (zip [1..<Suc (length keyword)] sorted_chars)
              (replicate (length keyword) ''0'')
      in concat numeric_key)"

text \<open>
  \<^verbatim>\<open>validate_key\<close>: \<^verbatim>\<open>set(key)\<close> is the set of the key's characters (one-character
  strings), compared with the set of the strings \<^verbatim>\<open>str(i)\<close> for \<open>i\<close> from 1 to the
  key's length.
\<close>

definition validate_key :: "string \<Rightarrow> bool" where
  "validate_key key =
     (if key = [] then False
      else if isdigit key then
        (let key_set = (\<lambda>c. [c]) ` set key;
             expected_set = str_nat ` set [1..<Suc (length key)]
         in key_set = expected_set)
      else isalpha key)"

definition normalize_key :: "string \<Rightarrow> error + string" where
  "normalize_key key =
     (if \<not> validate_key key then Inl InvalidKey
      else if isdigit key then Inr key
      else Inr (keyword_to_numeric key))"

text \<open>
  The column loop of \<^verbatim>\<open>encrypt\<close>: for every column number its offset in the numeric key
  is looked up with \<^verbatim>\<open>str.index\<close> (which can raise), and that column of the matrix is
  appended to the ciphertext, top to bottom.
\<close>

fun read_columns :: "string \<Rightarrow> char list list \<Rightarrow> nat list \<Rightarrow> string \<Rightarrow> error + string" where
  "read_columns numeric_key matrix [] ciphertext = Inr ciphertext"
| "read_columns numeric_key matrix (col_num # rest) ciphertext =
     (case index_str numeric_key (str_nat col_num) of
        None \<Rightarrow> Inl SubstringNotFound
      | Some col_idx \<Rightarrow>
          read_columns numeric_key matrix rest
            (ciphertext @ map (\<lambda>row. row ! col_idx) matrix))"

definition build_matrix :: "string \<Rightarrow> nat \<Rightarrow> nat \<Rightarrow> char list list" where
  "build_matrix padded_text num_rows key_length =
     map (\<lambda>i. map (\<lambda>j. let idx = i * key_length + j
                         in if idx < length padded_text then padded_text ! idx else CHR ''X'')
                [0..<key_length])
         [0..<num_rows]"

definition encrypt :: "string \<Rightarrow> string \<Rightarrow> bool \<Rightarrow> error + string" where
  "encrypt plaintext key keep_spaces =
     (case normalize_key key of
        Inl e \<Rightarrow> Inl e
      | Inr numeric_key \<Rightarrow>
          (let key_length = length numeric_key;
               plaintext = (if \<not> keep_spaces then filter (\<lambda>c. c \<noteq> CHR '' '') plaintext
                            else plaintext)
           in if key_length = 0 then Inl ZeroDivisionError
              else
                (let num_rows = ceil_div (length plaintext) key_length;
                     total_chars = num_rows * key_length;
                     padding_needed = total_chars - length plaintext;
                     padded_text = plaintext @ replicate padding_needed (CHR ''X'');
                     matrix = build_matrix padded_text num_rows key_length
                 in read_columns numeric_key matrix [1..<Suc key_length] [])))"

text \<open>
  \<^verbatim>\<open>decrypt\<close>: the matrix cells are strings, empty until a ciphertext character is
  written. The inner loop writes \<open>num_rows\<close> cells of one column while ciphertext is left;
  the state is the matrix and \<open>char_idx\<close>.
\<close>

definition fill_column ::
  "string \<Rightarrow> nat \<Rightarrow> nat \<Rightarrow> string list list \<times> nat \<Rightarrow> string list list \<times> nat" where
  "fill_column ciphertext col_idx num_rows st =
     fold (\<lambda>row_idx (matrix, char_idx).
             if char_idx < length ciphertext
             then (matrix[row_idx := (matrix ! row_idx)[col_idx := [ciphertext ! char_idx]]],
                   char_idx + 1)
             else (matrix, char_idx))
          [0..<num_rows] st"

fun fill_columns ::
  "string \<Rightarrow> string \<Rightarrow> nat \<Rightarrow> nat list \<Rightarrow> string list list \<times> nat
     \<Rightarrow> error + string list list \<times> nat" where
  "fill_columns numeric_key ciphertext num_rows [] st = Inr st"
| "fill_columns numeric_key ciphertext num_rows (col_num # rest) st =
     (case index_str numeric_key (str_nat col_num) of
        None \<Rightarrow> Inl SubstringNotFound
      | Some col_idx \<Rightarrow>
          fill_columns numeric_key ciphertext num_rows rest
            (fill_column ciphertext col_idx num_rows st))"

definition decrypt :: "string \<Rightarrow> string \<Rightarrow> error + string" where
  "decrypt ciphertext key =
     (case normalize_key key of
        Inl e \<Rightarrow> Inl e
      | Inr numeric_key \<Rightarrow>
          (let key_length = length numeric_key
           in if key_length = 0 then Inl ZeroDivisionError
              else
                (let num_rows = ceil_div (length ciphertext) key_length;
                     matrix = replicate num_rows (replicate key_length []);
                     char_idx = 0
                 in case fill_columns numeric_key ciphertext num_rows [1..<Suc key_length]
                           (matrix, char_idx) of
                      Inl e \<Rightarrow> Inl e
                    | Inr (matrix, char_idx) \<Rightarrow>
                        Inr (rstrip (CHR ''X'') (concat (map concat matrix))))))"

text \<open>
  The specification's reading of a numeric key, for comparison with \<^const>\<open>validate_key\<close>:
  every character is a digit and the digits' values are exactly the numbers from 1 to the
  key's length.
\<close>

definition digit_value :: "char \<Rightarrow> nat" where
  "digit_value c = of_char c - 48"

definition is_permutation_key :: "string \<Rightarrow> bool" where
  "is_permutation_key key =
     (list_all is_digit_char key \<and> digit_value ` set key = {1..length key})"

text \<open>
  Two notions used in the proofs about the cipher. A numeric key is well formed when it is
  a non-empty string of at most nine distinct characters that are exactly the digits
  \<open>1..n\<close>; its column order lists, for the column numbers \<open>1..n\<close>, the offsets
  that \<^verbatim>\<open>numeric_key.index(str(col_num))\<close> finds.
\<close>

definition numeric_ok :: "string \<Rightarrow> bool" where
  "numeric_ok nk = (nk \<noteq> [] \<and> length nk \<le> 9 \<and> distinct nk \<and> set nk = digit_char ` {1..length nk})"

definition column_order :: "string \<Rightarrow> nat list" where
  "column_order nk = map (\<lambda>col_num. the (index_str nk (str_nat col_num))) [1..<Suc (length nk)]"

section \<open>dictionary.py\<close>

text \<open>
  \<^verbatim>\<open>COMMON_WORDS\<close> is a set literal; its elements are listed here in the order and with the
  repetitions of the source.
\<close>

definition common_words_list :: "string list" where
  "common_words_list =
     [''THE'', ''BE'', ''TO'', ''OF'', ''AND'', ''A'', ''IN'', ''THAT'', ''HAVE'', ''I'',
      ''IT'', ''FOR'', ''NOT'', ''ON'', ''WITH'', ''HE'', ''AS'', ''YOU'', ''DO'', ''AT'',
      ''THIS'', ''BUT'', ''HIS'', ''BY'', ''FROM'', ''THEY'', ''WE'', ''SAY'', ''HER'', ''SHE'',
      ''OR'', ''AN'', ''WILL'', ''MY'', ''ONE'', ''ALL'', ''WOULD'', ''THERE'', ''THEIR'', ''WHAT'',
      ''CAN'', ''OUT'', ''UP'', ''GET'', ''GO'', ''COME'', ''KNOW'', ''TIME'', ''TAKE'', ''THEM'',
      ''SEE'', ''HIM'', ''YEAR'', ''SO'', ''THINK'', ''WHEN'', ''WHICH'', ''MAKE'', ''THAN'', ''LOOK'',
      ''WAY'', ''BEEN'', ''CALL'', ''WHO'', ''OIL'', ''ITS'', ''NOW'', ''FIND'', ''LONG'', ''DOWN'',
      ''DAY'', ''DID'', ''COULD'', ''OVER'', ''NEW'', ''WORK'', ''LAST'', ''WANT'', ''ALSO'', ''PEOPLE'',
      ''GIVE'', ''USE'', ''WATER'', ''SAID'', ''EACH'', ''SHE'', ''WHICH'', ''DO'', ''THEIR'', ''IF'',
      ''MAN'', ''LIFE'', ''WRITE'', ''RIGHT'', ''TOO'', ''ANY'', ''SAME'', ''THREE'', ''HIGH'', ''HAND'',
      ''THING'', ''PLACE'', ''OLD'', ''FOLLOW'', ''CAME'', ''GOOD'', ''SENTENCE'', ''SET'', ''EVERY'', ''ANSWER'',
      ''SCHOOL'', ''CHANGE'', ''PLAY'', ''SPELL'', ''AIR'', ''AWAY'', ''ANIMAL'', ''HOUSE'', ''POINT'', ''PAGE'',
      ''LETTER'', ''MOTHER'', ''WORLD'', ''STILL'', ''LEARN'', ''PLANT'', ''COVER'', ''FOOD'', ''SUN'', ''FOUR'',
      ''BETWEEN'', ''STATE'', ''KEEP'', ''EYE'', ''NEVER'', ''LAST'', ''LET'', ''THOUGHT'', ''CITY'', ''TREE'',
      ''GREAT'', ''WHERE'', ''HELP'', ''THROUGH'', ''MUCH'', ''BEFORE'', ''LINE'', ''RIGHT'', ''MEAN'', ''OLD'',
      ''ANY'', ''SAME'', ''TELL'', ''BOY'', ''FOLLOW'', ''CAME'', ''WANT'', ''SHOW'', ''ALSO'', ''AROUND'',
      ''FORM'', ''THREE'', ''SMALL'', ''SET'', ''PUT'', ''END'', ''WHY'', ''ASKED'', ''WENT'', ''MEN'',
      ''READ'', ''NEED'', ''LAND'', ''DIFFERENT'', ''HOME'', ''MOVE'', ''TRY'', ''KIND'', ''HAND'', ''PICTURE'',
      ''AGAIN'', ''CHANGE'', ''OFF'', ''PLAY'', ''SPELL'', ''AIR'', ''AWAY'', ''ANIMAL'', ''HOUSE'', ''POINT'',
      ''FOUND'', ''STUDY'', ''STILL'', ''LEARN'', ''SHOULD'', ''AMERICA'', ''WORLD'', ''HIGH'', ''EVERY'', ''NEAR'',
      ''ADD'', ''FOOD'', ''BETWEEN'', ''OWN'', ''BELOW'', ''COUNTRY'', ''PLANT'', ''LAST'', ''SCHOOL'', ''FATHER'',
      ''KEEP'', ''TREE'', ''NEVER'', ''START'', ''CITY'', ''EARTH'', ''EYE'', ''LIGHT'', ''THOUGHT'', ''HEAD'',
      ''UNDER'', ''STORY'', ''SAW'', ''LEFT'', ''DONT'', ''FEW'', ''WHILE'', ''ALONG'', ''MIGHT'', ''CLOSE'',
      ''SOMETHING'', ''SEEM'', ''NEXT'', ''HARD'', ''OPEN'', ''EXAMPLE'', ''BEGIN'', ''LIFE'', ''ALWAYS'', ''THOSE'',
      ''BOTH'', ''PAPER'', ''TOGETHER'', ''GOT'', ''GROUP'', ''OFTEN'', ''RUN'', ''IMPORTANT'', ''UNTIL'', ''CHILDREN'',
      ''SIDE'', ''FEET'', ''CAR'', ''MILE'', ''NIGHT'', ''WALK'', ''WHITE'', ''SEA'', ''BEGAN'', ''GROW'',
      ''TOOK'', ''RIVER'', ''FOUR'', ''CARRY'', ''STATE'', ''ONCE'', ''BOOK'', ''HEAR'', ''STOP'', ''WITHOUT'',
      ''SECOND'', ''LATER'', ''MISS'', ''IDEA'', ''ENOUGH'', ''EAT'', ''FACE'', ''WATCH'', ''FAR'', ''INDIAN'',
      ''REAL'', ''ALMOST'', ''LET'', ''ABOVE'', ''GIRL'', ''SOMETIMES'', ''MOUNTAIN'', ''CUT'', ''YOUNG'', ''TALK'',
      ''SOON'', ''LIST'', ''SONG'', ''BEING'', ''LEAVE'', ''FAMILY'', ''BODY'', ''MUSIC'', ''COLOR'', ''STAND'',
      ''SUN'', ''QUESTIONS'', ''FISH'', ''AREA'', ''MARK'', ''DOG'', ''HORSE'', ''BIRDS'', ''PROBLEM'', ''COMPLETE'',
      ''ROOM'', ''KNEW'', ''SINCE'', ''EVER'', ''PIECE'', ''TOLD'', ''USUALLY'', ''DIDNT'', ''FRIENDS'', ''EASY'',
      ''HEARD'', ''ORDER'', ''RED'', ''DOOR'', ''SURE'', ''BECOME'', ''TOP'', ''SHIP'', ''ACROSS'', ''TODAY'',
      ''DURING'', ''SHORT'', ''BETTER'', ''BEST'', ''HOWEVER'', ''LOW'', ''HOURS'', ''BLACK'', ''PRODUCTS'', ''HAPPENED'',
      ''WHOLE'', ''MEASURE'', ''REMEMBER'', ''EARLY'', ''WAVES'', ''REACHED'', ''LISTEN'', ''WIND'', ''ROCK'', ''SPACE'',
      ''COVERED'', ''FAST'', ''SEVERAL'', ''HOLD'', ''HIMSELF'', ''TOWARD'', ''FIVE'', ''STEP'', ''MORNING'', ''PASSED'',
      ''VOWEL'', ''TRUE'', ''HUNDRED'', ''AGAINST'', ''PATTERN'', ''NUMERAL'', ''TABLE'', ''NORTH'', ''SLOWLY'', ''MONEY'',
      ''MAP'', ''FARM'', ''PULLED'', ''DRAW'', ''VOICE'', ''SEEN'', ''COLD'', ''CRIED'', ''PLAN'', ''NOTICE'',
      ''SOUTH'', ''SING'', ''WAR'', ''GROUND'', ''FALL'', ''KING'', ''TOWN'', ''ILL'', ''UNIT'', ''FIGURE'',
      ''SYSTEM'', ''PROGRAM'', ''COMPUTER'', ''DATA'', ''SECURITY'', ''CODE'', ''MESSAGE'', ''TEXT'', ''CIPHER'',
      ''KEY'', ''ENCRYPT'', ''DECRYPT'', ''ATTACK'', ''ALGORITHM'', ''METHOD'', ''PROCESS'', ''RESULT'', ''TEST'',
      ''QUESTION'', ''POWER'', ''CANNOT'', ''ABLE'', ''SIX'', ''SIZE'', ''DARK'', ''BALL'', ''MATERIAL'', ''SPECIAL'',
      ''HEAVY'', ''FINE'', ''PAIR'', ''CIRCLE'', ''INCLUDE'', ''BUILT'', ''NOTHING'', ''COURSE'', ''STAY'', ''WHEEL'',
      ''FULL'', ''FORCE'', ''BLUE'', ''OBJECT'', ''DECIDE'', ''SURFACE'', ''DEEP'', ''MOON'', ''ISLAND'', ''FOOT'',
      ''YET'', ''BUSY'', ''TEST'', ''RECORD'', ''BOAT'', ''COMMON'', ''GOLD'', ''POSSIBLE'', ''PLANE'', ''AGE'',
      ''DRY'', ''WONDER'', ''LAUGH'', ''THOUSAND'', ''AGO'', ''RAN'', ''CHECK'', ''GAME'', ''SHAPE'', ''YES'',
      ''HOT'', ''MISS'', ''BROUGHT'', ''HEAT'', ''SNOW'', ''BED'', ''BRING'', ''SIT'', ''PERHAPS'', ''FILL'',
      ''EAST'', ''WEIGHT'', ''LANGUAGE'', ''AMONG'', ''QUICK'', ''BROWN'', ''FOX'', ''JUMPS'', ''LAZY'', ''OVER'']"

definition COMMON_WORDS :: "string set" where
  "COMMON_WORDS = set common_words_list"

text \<open>The slice \<^verbatim>\<open>text[i:j]\<close> for \<open>0 \<le> i \<le> j\<close> (an end beyond the text is clamped).\<close>

definition slice :: "'a list \<Rightarrow> nat \<Rightarrow> nat \<Rightarrow> 'a list" where
  "slice xs i j = take (j - i) (drop i xs)"

text \<open>
  \<^verbatim>\<open>find_words_in_text\<close>: for every start \<open>i\<close> and every end \<open>j\<close> in
  \<^verbatim>\<open>range(i + min_length, min(i + 15, len(text) + 1))\<close>, in this order, the triple
  \<open>(text[i:j], i, j)\<close> is appended when the slice is a common word. \<open>min_length\<close> is a
  natural number here (the default is 2).
\<close>

definition find_words_in_text :: "string \<Rightarrow> nat \<Rightarrow> (string \<times> nat \<times> nat) list" where
  "find_words_in_text text min_length =
     (let text = upper text
      in concat (map (\<lambda>i.
           concat (map (\<lambda>j. let substring = slice text i j
                              in if substring \<in> COMMON_WORDS then [(substring, i, j)] else [])
                       [i + min_length..<min (i + 15) (length text + 1)]))
           [0..<length text]))"

text \<open>
  \<^verbatim>\<open>score_text_by_dictionary\<close>: the matches are sorted by length, longest first
  (\<^verbatim>\<open>sort(..., reverse=True)\<close> is stable), and each one whose span is still free is marked
  in the coverage list.
\<close>

definition mark_word :: "bool list \<Rightarrow> string \<times> nat \<times> nat \<Rightarrow> bool list" where
  "mark_word coverage w =
     (case w of (word, start, end) \<Rightarrow>
        if \<not> list_ex (\<lambda>b. b) (slice coverage start end)
        then fold (\<lambda>k cov. cov[k := True]) [start..<end] coverage
        else coverage)"

definition score_text_by_dictionary :: "string \<Rightarrow> real" where
  "score_text_by_dictionary text =
     (if text = [] then 0
      else
        (let text = upper text;
             found_words = find_words_in_text text 2
         in if found_words = [] then 0
            else
              (let text_len = length text;
                   coverage = replicate text_len False;
                   found_words = sort_key (\<lambda>(word, start, end). - int (end - start)) found_words;
                   coverage = fold (\<lambda>w cov. mark_word cov w) found_words coverage;
                   covered_chars = length (filter (\<lambda>b. b) coverage)
               in real covered_chars / real text_len)))"

section \<open>scoring.py\<close>

text \<open>
  Floats are modelled as real numbers; the one infinite value the module produces
  (\<^verbatim>\<open>float('inf')\<close> from \<^verbatim>\<open>chi_squared\<close>) is a constructor of its own. A division whose
  divisor is computed is \<open>py_div\<close>, which raises on zero as Python does.
\<close>

datatype xreal = Fin real | PInf

definition py_div :: "real \<Rightarrow> real \<Rightarrow> error + real" where
  "py_div a b = (if b = 0 then Inl ZeroDivisionError else Inr (a / b))"

definition ENGLISH_FREQ :: "(char \<times> real) list" where
  "ENGLISH_FREQ =
     [(CHR ''A'', 8.167), (CHR ''B'', 1.492), (CHR ''C'', 2.782), (CHR ''D'', 4.253), (CHR ''E'', 12.702),
      (CHR ''F'', 2.228), (CHR ''G'', 2.015), (CHR ''H'', 6.094), (CHR ''I'', 6.966), (CHR ''J'', 0.153),
      (CHR ''K'', 0.772), (CHR ''L'', 4.025), (CHR ''M'', 2.406), (CHR ''N'', 6.749), (CHR ''O'', 7.507),
      (CHR ''P'', 1.929), (CHR ''Q'', 0.095), (CHR ''R'', 5.987), (CHR ''S'', 6.327), (CHR ''T'', 9.056),
      (CHR ''U'', 2.758), (CHR ''V'', 0.978), (CHR ''W'', 2.360), (CHR ''X'', 0.150), (CHR ''Y'', 1.974),
      (CHR ''Z'', 0.074)]"

definition COMMON_BIGRAMS :: "(string \<times> real) list" where
  "COMMON_BIGRAMS =
     [(''TH'', 3.56), (''HE'', 3.07), (''IN'', 2.43), (''ER'', 2.05), (''AN'', 1.99),
      (''RE'', 1.85), (''ON'', 1.76), (''AT'', 1.49), (''EN'', 1.45), (''ND'', 1.35),
      (''TI'', 1.34), (''ES'', 1.34), (''OR'', 1.28), (''TE'', 1.20), (''OF'', 1.17),
      (''ED'', 1.17), (''IS'', 1.13), (''IT'', 1.12), (''AL'', 1.09), (''AR'', 1.07),
      (''ST'', 1.05), (''TO'', 1.04), (''NT'', 1.04), (''NG'', 0.95), (''SE'', 0.93),
      (''HA'', 0.93), (''AS'', 0.87), (''OU'', 0.87), (''IO'', 0.83), (''LE'', 0.83)]"

definition COMMON_TRIGRAMS :: "(string \<times> real) list" where
  "COMMON_TRIGRAMS =
     [(''THE'', 3.51), (''AND'', 1.59), (''ING'', 1.14), (''HER'', 0.82), (''HAT'', 0.65),
      (''HIS'', 0.60), (''THA'', 0.60), (''ERE'', 0.56), (''FOR'', 0.56), (''ENT'', 0.53),
      (''ION'', 0.53), (''TER'', 0.51), (''WAS'', 0.51), (''YOU'', 0.48), (''ITH'', 0.48),
      (''VER'', 0.47), (''ALL'', 0.46), (''WIT'', 0.46), (''THI'', 0.46), (''TIO'', 0.45)]"

definition COMMON_QUADGRAMS :: "(string \<times> real) list" where
  "COMMON_QUADGRAMS =
     [(''TION'', 0.31), (''THAT'', 0.27), (''THER'', 0.24), (''WITH'', 0.23), (''MENT'', 0.19),
      (''IONS'', 0.17), (''THES'', 0.16), (''ATIO'', 0.15), (''FTHE'', 0.14), (''DTHE'', 0.13),
      (''ANDT'', 0.13), (''INTH'', 0.12), (''HERE'', 0.12), (''STHE'', 0.12), (''OTHE'', 0.11)]"

text \<open>\<^verbatim>\<open>key in table\<close> for a dictionary.\<close>

definition in_table :: "'k \<Rightarrow> ('k \<times> 'v) list \<Rightarrow> bool" where
  "in_table k table = (k \<in> set (map fst table))"

text \<open>
  The loop of \<^verbatim>\<open>chi_squared\<close> over the 26 letters: \<^verbatim>\<open>ENGLISH_FREQ[letter]\<close> raises
  \<^verbatim>\<open>KeyError\<close> on a missing letter, and the division is guarded by \<^verbatim>\<open>expected > 0\<close>.
\<close>

fun chi_loop :: "string \<Rightarrow> string \<Rightarrow> nat \<Rightarrow> real \<Rightarrow> error + real" where
  "chi_loop letters_in_text [] text_length chi_sq = Inr chi_sq"
| "chi_loop letters_in_text (letter # rest) text_length chi_sq =
     (let observed = real (count_list letters_in_text letter)
      in case map_of ENGLISH_FREQ letter of
           None \<Rightarrow> Inl KeyError
         | Some freq \<Rightarrow>
             (let expected = (freq / 100) * real text_length
              in if expected > 0
                 then (case py_div ((observed - expected)\<^sup>2) expected of
                         Inl e \<Rightarrow> Inl e
                       | Inr term \<Rightarrow> chi_loop letters_in_text rest text_length (chi_sq + term))
                 else chi_loop letters_in_text rest text_length chi_sq))"

definition chi_squared :: "string \<Rightarrow> error + xreal" where
  "chi_squared text =
     (if text = [] then Inr PInf
      else
        (let text = upper text;
             letters_in_text = filter is_alpha_char text;
             text_length = length letters_in_text
         in if text_length = 0 then Inr PInf
            else (case chi_loop letters_in_text ''ABCDEFGHIJKLMNOPQRSTUVWXYZ'' text_length 0 of
                    Inl e \<Rightarrow> Inl e
                  | Inr chi_sq \<Rightarrow> Inr (Fin chi_sq))))"

definition score_letter_frequency :: "string \<Rightarrow> error + real" where
  "score_letter_frequency text =
     (case chi_squared text of
        Inl e \<Rightarrow> Inl e
      | Inr PInf \<Rightarrow> Inr 0
      | Inr (Fin chi_sq) \<Rightarrow> Inr (max 0 (1 - chi_sq / 500)))"

text \<open>
  The three n-gram scores share one loop: over the offsets \<^verbatim>\<open>range(len(text) - (n - 1))\<close>,
  count the windows of \<open>n\<close> letters and those among them that are in the table.
\<close>

definition ngram_counts :: "nat \<Rightarrow> (string \<times> real) list \<Rightarrow> string \<Rightarrow> nat \<times> nat" where
  "ngram_counts n table text =
     fold (\<lambda>i (ngram_count, total_ngrams).
             if list_all (\<lambda>j. is_alpha_char (text ! (i + j))) [0..<n]
             then (if in_table (slice text i (i + n)) table then ngram_count + 1 else ngram_count,
                   total_ngrams + 1)
             else (ngram_count, total_ngrams))
          [0..<length text - (n - 1)] (0, 0)"

definition score_ngrams :: "nat \<Rightarrow> (string \<times> real) list \<Rightarrow> string \<Rightarrow> error + real" where
  "score_ngrams n table text =
     (if length text < n then Inr 0
      else
        (let text = upper text;
             (ngram_count, total_ngrams) = ngram_counts n table text
         in if total_ngrams = 0 then Inr 0
            else py_div (real ngram_count) (real total_ngrams)))"

definition score_bigrams :: "string \<Rightarrow> error + real" where
  "score_bigrams text = score_ngrams 2 COMMON_BIGRAMS text"

definition score_trigrams :: "string \<Rightarrow> error + real" where
  "score_trigrams text = score_ngrams 3 COMMON_TRIGRAMS text"

definition score_quadgrams :: "string \<Rightarrow> error + real" where
  "score_quadgrams text = score_ngrams 4 COMMON_QUADGRAMS text"

definition score_text :: "string \<Rightarrow> error + real" where
  "score_text text =
     (if text = [] \<or> length text < 2 then Inr 0
      else
        (case score_letter_frequency text of Inl e \<Rightarrow> Inl e | Inr f \<Rightarrow>
         case score_bigrams text of Inl e \<Rightarrow> Inl e | Inr b \<Rightarrow>
         case score_trigrams text of Inl e \<Rightarrow> Inl e | Inr t \<Rightarrow>
         case score_quadgrams text of Inl e \<Rightarrow> Inl e | Inr q \<Rightarrow>
           (let freq_score = f * 30;
                bigram_score = b * 25;
                trigram_score = t * 25;
                quadgram_score = q * 20;
                total_score = freq_score + bigram_score + trigram_score + quadgram_score
            in Inr total_score)))"

definition score_with_dictionary :: "string \<Rightarrow> real \<Rightarrow> error + real" where
  "score_with_dictionary text dictionary_score =
     (case score_text text of
        Inl e \<Rightarrow> Inl e
      | Inr base_score \<Rightarrow>
          (let combined_score = base_score * (1 + dictionary_score * 0.5)
           in Inr (min combined_score 150)))"

section \<open>attack.py\<close>

text \<open>
  Where a variable of the source is called \<^verbatim>\<open>length\<close>, the model writes \<open>len\<close>.
  \<^verbatim>\<open>evaluate_plaintext\<close> calls the three scoring functions in the order of the source; an
  exception of any of them would propagate.
\<close>

definition evaluate_plaintext :: "string \<Rightarrow> error + real" where
  "evaluate_plaintext plaintext =
     (case score_text plaintext of
        Inl e \<Rightarrow> Inl e
      | Inr base_score \<Rightarrow>
          (let dict_score = score_text_by_dictionary plaintext
           in score_with_dictionary plaintext dict_score))"

subsection \<open>Brute force\<close>

text \<open>
  \<^verbatim>\<open>itertools.permutations\<close> emits the permutations in the order of the positions of the
  input: all those starting with the first element, then with the second, and so on.
\<close>

function permutations :: "'a list \<Rightarrow> 'a list list" where
  "permutations xs =
     (if xs = [] then [[]]
      else concat (map (\<lambda>i. map ((#) (xs ! i)) (permutations (take i xs @ drop (Suc i) xs)))
                       [0..<length xs]))"
  by pat_completeness auto
termination
  by (relation "measure length") auto

declare permutations.simps [simp del]

text \<open>
  The scores of \<^verbatim>\<open>brute_force_attack\<close> are binary64 numbers, and the source sorts on
  them as computed: two plaintexts whose exact scores are equal may get different binary64
  scores, and conversely. The rounding of the scoring arithmetic is not fixed here. The outcome
  of the three scoring calls of the \<^verbatim>\<open>try\<close> block on a plaintext,
  \<^verbatim>\<open>score_text\<close>, \<^verbatim>\<open>score_text_by_dictionary\<close> and \<^verbatim>\<open>score_with_dictionary\<close>,
  is the parameter \<open>scorer\<close>: \<open>Inr\<close> of the combined score the source computes (a
  finite binary64 number, read as the real number it denotes, so that the comparison of two
  scores is the comparison of the reals), or \<open>Inl\<close> of the exception raised by one of
  the calls. The scoring calls depend on the plaintext only. What is said of
  \<^verbatim>\<open>brute_force_attack\<close> below holds for every \<open>scorer\<close>; \<^const>\<open>evaluate_plaintext\<close> is
  the scorer of exact arithmetic.

  The body of the \<^verbatim>\<open>try\<close> block for one key: any exception skips the key
  (\<^verbatim>\<open>except Exception: continue\<close>). No progress callback is passed.
\<close>

definition try_key ::
  "(string \<Rightarrow> error + real) \<Rightarrow> string \<Rightarrow> string \<Rightarrow> (string \<times> string \<times> real) list" where
  "try_key scorer ciphertext key =
     (case decrypt ciphertext key of
        Inl e \<Rightarrow> []
      | Inr plaintext \<Rightarrow>
          (case scorer plaintext of
             Inl e \<Rightarrow> []
           | Inr combined_score \<Rightarrow> [(key, plaintext, combined_score)]))"

definition key_perms :: "nat \<Rightarrow> string list" where
  "key_perms key_length =
     (let digits = map str_nat [1..<Suc key_length]
      in map concat (permutations digits))"

text \<open>
  \<^verbatim>\<open>results.sort(key=lambda x: x[2], reverse=True)\<close> is a stable sort by descending
  score: entries of equal score keep their order, as with \<^const>\<open>sort_key\<close> on the negated
  score.
\<close>

definition brute_force_attack ::
  "(string \<Rightarrow> error + real) \<Rightarrow> string \<Rightarrow> nat \<Rightarrow> (string \<times> string \<times> real) list" where
  "brute_force_attack scorer ciphertext max_key_length =
     (let results = concat (map (\<lambda>key_length.
                                   concat (map (try_key scorer ciphertext) (key_perms key_length)))
                               [1..<Suc max_key_length])
      in sort_key (\<lambda>(key, plaintext, score). - score) results)"

subsection \<open>Random keys and swaps\<close>

text \<open>
  The random module is an input of the model. \<^verbatim>\<open>random.shuffle(digits)\<close> is a function
  \<open>shuffle\<close> on the list (a run of the program applies some permutation), and
  \<^verbatim>\<open>random.sample(range(n), 2)\<close> is the pair of positions it returns (two different
  positions below \<open>n\<close> in a run); it raises when \<open>n < 2\<close>.
\<close>

definition generate_random_key :: "(nat list \<Rightarrow> nat list) \<Rightarrow> nat \<Rightarrow> string" where
  "generate_random_key shuffle len =
     (let digits = [1..<Suc len];
          digits = shuffle digits
      in concat (map str_nat digits))"

definition swap_random_positions :: "nat \<times> nat \<Rightarrow> string \<Rightarrow> error + string" where
  "swap_random_positions sample key =
     (if length key < 2 then Inl SampleTooLarge
      else (case sample of (i, j) \<Rightarrow> Inr (key[i := key ! j, j := key ! i])))"

definition mutate_key :: "nat \<times> nat \<Rightarrow> string \<Rightarrow> error + string" where
  "mutate_key sample key = swap_random_positions sample key"

subsection \<open>Hill climbing\<close>

text \<open>
  The local variables of \<^verbatim>\<open>hill_climbing_attack\<close>, and the number of random keys drawn so
  far. \<open>shuffle_at k\<close> is the shuffle of the \<open>k\<close>-th call of \<^verbatim>\<open>generate_random_key\<close>,
  \<open>sample_at i\<close> the positions drawn in iteration \<open>i\<close>.
\<close>

record hc_state =
  current_key :: string
  current_plaintext :: string
  current_score :: real
  best_key :: string
  best_plaintext :: string
  best_score :: real
  no_improvement_count :: nat
  keys_drawn :: nat

definition max_no_improvement :: nat where
  "max_no_improvement = 100"

definition hc_step ::
  "(nat \<Rightarrow> nat list \<Rightarrow> nat list) \<Rightarrow> (nat \<Rightarrow> nat \<times> nat) \<Rightarrow> string \<Rightarrow> nat \<Rightarrow> nat \<Rightarrow> hc_state
     \<Rightarrow> error + hc_state" where
  "hc_step shuffle_at sample_at ciphertext key_length iteration st =
     (case swap_random_positions (sample_at iteration) (current_key st) of
        Inl e \<Rightarrow> Inl e
      | Inr neighbor_key \<Rightarrow>
     (case decrypt ciphertext neighbor_key of
        Inl e \<Rightarrow> Inl e
      | Inr neighbor_plaintext \<Rightarrow>
     (case evaluate_plaintext neighbor_plaintext of
        Inl e \<Rightarrow> Inl e
      | Inr neighbor_score \<Rightarrow>
          if neighbor_score > current_score st then
            (let st = st\<lparr>current_key := neighbor_key, current_plaintext := neighbor_plaintext,
                          current_score := neighbor_score, no_improvement_count := 0\<rparr>
             in if current_score st > best_score st
                then Inr (st\<lparr>best_key := current_key st, best_plaintext := current_plaintext st,
                              best_score := current_score st\<rparr>)
                else Inr st)
          else
            (let st = st\<lparr>no_improvement_count := no_improvement_count st + 1\<rparr>
             in if no_improvement_count st \<ge> max_no_improvement then
                  (let new_key = generate_random_key (shuffle_at (keys_drawn st)) key_length
                   in case decrypt ciphertext new_key of
                        Inl e \<Rightarrow> Inl e
                      | Inr new_plaintext \<Rightarrow>
                     (case evaluate_plaintext new_plaintext of
                        Inl e \<Rightarrow> Inl e
                      | Inr new_score \<Rightarrow>
                          Inr (st\<lparr>current_key := new_key, current_plaintext := new_plaintext,
                                   current_score := new_score, no_improvement_count := 0,
                                   keys_drawn := keys_drawn st + 1\<rparr>)))
                else Inr st))))"

fun hc_iterate ::
  "(nat \<Rightarrow> nat list \<Rightarrow> nat list) \<Rightarrow> (nat \<Rightarrow> nat \<times> nat) \<Rightarrow> string \<Rightarrow> nat \<Rightarrow> nat list \<Rightarrow> hc_state
     \<Rightarrow> error + hc_state" where
  "hc_iterate shuffle_at sample_at ciphertext key_length [] st = Inr st"
| "hc_iterate shuffle_at sample_at ciphertext key_length (iteration # rest) st =
     (case hc_step shuffle_at sample_at ciphertext key_length iteration st of
        Inl e \<Rightarrow> Inl e
      | Inr st' \<Rightarrow> hc_iterate shuffle_at sample_at ciphertext key_length rest st')"

text \<open>The whole run, up to the state after the last iteration.\<close>

definition hill_climbing_run ::
  "(nat \<Rightarrow> nat list \<Rightarrow> nat list) \<Rightarrow> (nat \<Rightarrow> nat \<times> nat) \<Rightarrow> string \<Rightarrow> nat \<Rightarrow> nat
     \<Rightarrow> error + hc_state" where
  "hill_climbing_run shuffle_at sample_at ciphertext key_length max_iterations =
     (let initial_key = generate_random_key (shuffle_at 0) key_length
      in case decrypt ciphertext initial_key of
           Inl e \<Rightarrow> Inl e
         | Inr initial_plaintext \<Rightarrow>
        (case evaluate_plaintext initial_plaintext of
           Inl e \<Rightarrow> Inl e
         | Inr initial_score \<Rightarrow>
             hc_iterate shuffle_at sample_at ciphertext key_length [0..<max_iterations]
               \<lparr>current_key = initial_key, current_plaintext = initial_plaintext,
                current_score = initial_score,
                best_key = initial_key, best_plaintext = initial_plaintext,
                best_score = initial_score,
                no_improvement_count = 0, keys_drawn = 1\<rparr>))"

definition hill_climbing_attack ::
  "(nat \<Rightarrow> nat list \<Rightarrow> nat list) \<Rightarrow> (nat \<Rightarrow> nat \<times> nat) \<Rightarrow> string \<Rightarrow> nat \<Rightarrow> nat
     \<Rightarrow> error + string \<times> string \<times> real" where
  "hill_climbing_attack shuffle_at sample_at ciphertext key_length max_iterations =
     (case hill_climbing_run shuffle_at sample_at ciphertext key_length max_iterations of
        Inl e \<Rightarrow> Inl e
      | Inr st \<Rightarrow> Inr (best_key st, best_plaintext st, best_score st))"

subsection \<open>Genetic algorithm\<close>

text \<open>
  \<^verbatim>\<open>crossover_keys\<close>. The child is a list of one-character strings, \<^verbatim>\<open>'0'\<close> where nothing
  is placed yet. The inner \<^verbatim>\<open>while\<close> loop advances \<open>parent2_pos\<close> over the characters of
  \<open>key2\<close> that the child already holds; reading \<open>key2\<close> beyond its end raises
  \<^verbatim>\<open>IndexError\<close>.
\<close>

function skip_placed :: "string \<Rightarrow> string \<Rightarrow> nat \<Rightarrow> error + nat" where
  "skip_placed key2 child parent2_pos =
     (if parent2_pos \<ge> length key2 then Inl IndexError
      else if key2 ! parent2_pos \<in> set child then skip_placed key2 child (parent2_pos + 1)
      else Inr parent2_pos)"
  by pat_completeness auto
termination
  by (relation "measure (\<lambda>(key2, child, parent2_pos). length key2 - parent2_pos)") auto

declare skip_placed.simps [simp del]

fun fill_from_parent2 :: "string \<Rightarrow> nat list \<Rightarrow> string \<Rightarrow> nat \<Rightarrow> error + string" where
  "fill_from_parent2 key2 [] child parent2_pos = Inr child"
| "fill_from_parent2 key2 (i # rest) child parent2_pos =
     (case skip_placed key2 child parent2_pos of
        Inl e \<Rightarrow> Inl e
      | Inr parent2_pos \<Rightarrow>
          fill_from_parent2 key2 rest (child[i := key2 ! parent2_pos]) (parent2_pos + 1))"

definition crossover_keys :: "nat \<times> nat \<Rightarrow> string \<Rightarrow> string \<Rightarrow> error + string" where
  "crossover_keys sample key1 key2 =
     (let len = length key1
      in if len < 2 then Inl SampleTooLarge
         else
           (let point1 = min (fst sample) (snd sample);
                point2 = max (fst sample) (snd sample);
                child = replicate len (CHR ''0'');
                child = fold (\<lambda>i child. child[i := key1 ! i]) [point1..<point2] child
            in fill_from_parent2 key2 ([0..<point1] @ [point2..<len]) child 0))"

text \<open>
  The random draws of \<^verbatim>\<open>genetic_algorithm_attack\<close>, by individual for the initial population
  and by generation and child for the refill loop. \<^verbatim>\<open>random.choice\<close> raises
  \<^verbatim>\<open>IndexError\<close> on an empty list.
\<close>

record ga_random =
  init_shuffle :: "nat \<Rightarrow> nat list \<Rightarrow> nat list"
  parent1_choice :: "nat \<Rightarrow> nat \<Rightarrow> nat"
  parent2_choice :: "nat \<Rightarrow> nat \<Rightarrow> nat"
  crossover_sample :: "nat \<Rightarrow> nat \<Rightarrow> nat \<times> nat"
  mutation_draw :: "nat \<Rightarrow> nat \<Rightarrow> real"
  mutation_sample :: "nat \<Rightarrow> nat \<Rightarrow> nat \<times> nat"

definition random_choice :: "'a list \<Rightarrow> nat \<Rightarrow> error + 'a" where
  "random_choice xs pick = (if xs = [] then Inl IndexError else Inr (xs ! (pick mod length xs)))"

text \<open>The triple \<open>(best_key, best_plaintext, best_score)\<close>, the first two \<^verbatim>\<open>None\<close> at first.\<close>

type_synonym ga_best = "string option \<times> string option \<times> real"

fun ga_evaluate ::
  "string \<Rightarrow> string list \<Rightarrow> (string \<times> string \<times> real) list \<times> ga_best
     \<Rightarrow> error + (string \<times> string \<times> real) list \<times> ga_best" where
  "ga_evaluate ciphertext [] acc = Inr acc"
| "ga_evaluate ciphertext (key # rest) (fitness_scores, best) =
     (case decrypt ciphertext key of
        Inl e \<Rightarrow> Inl e
      | Inr plaintext \<Rightarrow>
     (case evaluate_plaintext plaintext of
        Inl e \<Rightarrow> Inl e
      | Inr score \<Rightarrow>
          ga_evaluate ciphertext rest
            (fitness_scores @ [(key, plaintext, score)],
             if score > snd (snd best) then (Some key, Some plaintext, score) else best)))"

fun ga_refill ::
  "ga_random \<Rightarrow> nat \<Rightarrow> string list \<Rightarrow> nat list \<Rightarrow> string list \<Rightarrow> error + string list" where
  "ga_refill rnd generation selected [] new_population = Inr new_population"
| "ga_refill rnd generation selected (child_no # rest) new_population =
     (case random_choice selected (parent1_choice rnd generation child_no) of
        Inl e \<Rightarrow> Inl e
      | Inr parent1 \<Rightarrow>
     (case random_choice selected (parent2_choice rnd generation child_no) of
        Inl e \<Rightarrow> Inl e
      | Inr parent2 \<Rightarrow>
     (case crossover_keys (crossover_sample rnd generation child_no) parent1 parent2 of
        Inl e \<Rightarrow> Inl e
      | Inr child \<Rightarrow>
     (case (if mutation_draw rnd generation child_no < 0.1
            then mutate_key (mutation_sample rnd generation child_no) child
            else Inr child) of
        Inl e \<Rightarrow> Inl e
      | Inr child \<Rightarrow> ga_refill rnd generation selected rest (new_population @ [child])))))"

definition ga_generation ::
  "ga_random \<Rightarrow> string \<Rightarrow> nat \<Rightarrow> nat \<Rightarrow> string list \<times> ga_best \<Rightarrow> error + string list \<times> ga_best" where
  "ga_generation rnd ciphertext population_size generation st =
     (case st of (population, best) \<Rightarrow>
      case ga_evaluate ciphertext population ([], best) of
        Inl e \<Rightarrow> Inl e
      | Inr (fitness_scores, best) \<Rightarrow>
          (let fitness_scores = sort_key (\<lambda>(key, plaintext, score). - score) fitness_scores;
               selected = map fst (take (population_size div 2) fitness_scores);
               new_population = selected
           in case ga_refill rnd generation selected
                     [length new_population..<population_size] new_population of
                Inl e \<Rightarrow> Inl e
              | Inr new_population \<Rightarrow> Inr (new_population, best)))"

fun ga_iterate ::
  "ga_random \<Rightarrow> string \<Rightarrow> nat \<Rightarrow> nat list \<Rightarrow> string list \<times> ga_best \<Rightarrow> error + string list \<times> ga_best" where
  "ga_iterate rnd ciphertext population_size [] st = Inr st"
| "ga_iterate rnd ciphertext population_size (generation # rest) st =
     (case ga_generation rnd ciphertext population_size generation st of
        Inl e \<Rightarrow> Inl e
      | Inr st' \<Rightarrow> ga_iterate rnd ciphertext population_size rest st')"

definition initial_population :: "ga_random \<Rightarrow> nat \<Rightarrow> nat \<Rightarrow> string list" where
  "initial_population rnd key_length population_size =
     map (\<lambda>individual. generate_random_key (init_shuffle rnd individual) key_length)
         [0..<population_size]"

definition genetic_algorithm_attack ::
  "ga_random \<Rightarrow> string \<Rightarrow> nat \<Rightarrow> nat \<Rightarrow> nat \<Rightarrow> error + ga_best" where
  "genetic_algorithm_attack rnd ciphertext key_length population_size generations =
     (let population = initial_population rnd key_length population_size;
          best = (None, None, 0)
      in case ga_iterate rnd ciphertext population_size [0..<generations] (population, best) of
           Inl e \<Rightarrow> Inl e
         | Inr (population, best) \<Rightarrow> Inr best)"

subsection \<open>Ciphertext analysis\<close>

text \<open>
  The indices of coincidence are binary64 numbers, and \<^verbatim>\<open>analyze_ciphertext\<close> sorts on
  what the binary64 operations return: an average that is exactly \<open>1/2\<close> may be computed as
  \<open>0.49999999999999994\<close>. The operations the source applies are the fields of
  \<open>float_ops\<close>, each taking and returning the real numbers that the binary64 numbers denote
  (every number that occurs is finite): the conversion of an integer, addition, subtraction,
  division, and the value of the literal \<^verbatim>\<open>0.067\<close>. \<^verbatim>\<open>abs\<close> and the literal
  \<^verbatim>\<open>0.0\<close> are exact. What is said of \<^verbatim>\<open>analyze_ciphertext\<close> below holds for every
  \<open>float_ops\<close>; the operations of binary64 itself are given with the concrete runs.
\<close>

record float_ops =
  float_of_int :: "int \<Rightarrow> real"
  float_add :: "real \<Rightarrow> real \<Rightarrow> real"
  float_sub :: "real \<Rightarrow> real \<Rightarrow> real"
  float_div :: "real \<Rightarrow> real \<Rightarrow> real"
  float_0_067 :: real

text \<open>
  \<^verbatim>\<open>calculate_ic\<close>. \<^verbatim>\<open>letter_counts\<close> is a dictionary, kept here as an association list
  in insertion order. \<^verbatim>\<open>ic\<close> is a float; \<^verbatim>\<open>count * (count - 1)\<close> and
  \<^verbatim>\<open>total_letters * (total_letters - 1)\<close> are integers, converted when they meet it. The
  final division is reached only when \<open>total_letters \<ge> 2\<close>.
\<close>

fun dict_bump :: "char \<Rightarrow> (char \<times> nat) list \<Rightarrow> (char \<times> nat) list" where
  "dict_bump c [] = [(c, 1)]"
| "dict_bump c ((k, v) # rest) = (if k = c then (k, v + 1) # rest else (k, v) # dict_bump c rest)"

definition calculate_ic :: "float_ops \<Rightarrow> string \<Rightarrow> real" where
  "calculate_ic fl text =
     (if length text < 2 then 0
      else
        (let text = upper text;
             (letter_counts, total_letters) =
               fold (\<lambda>char (letter_counts, total_letters).
                       if is_alpha_char char then (dict_bump char letter_counts, total_letters + 1)
                       else (letter_counts, total_letters))
                    text ([], 0::nat)
         in if total_letters < 2 then 0
            else
              (let ic = fold (\<lambda>count ic.
                                float_add fl ic (float_of_int fl (int count * (int count - 1))))
                             (map snd letter_counts) 0
               in float_div fl ic
                    (float_of_int fl (int total_letters * (int total_letters - 1))))))"

text \<open>The round-robin columns of one trial length, and the average of their indices.\<close>

definition split_columns :: "string \<Rightarrow> nat \<Rightarrow> string list" where
  "split_columns ciphertext key_len =
     fold (\<lambda>(i, char) columns. columns[i mod key_len := columns ! (i mod key_len) @ [char]])
          (zip [0..<length ciphertext] ciphertext) (replicate key_len [])"

text \<open>\<^verbatim>\<open>ic_sum\<close> starts as the integer \<^verbatim>\<open>0\<close>, and \<^verbatim>\<open>key_len\<close> is an integer.\<close>

definition average_ic :: "float_ops \<Rightarrow> string \<Rightarrow> nat \<Rightarrow> real" where
  "average_ic fl ciphertext key_len =
     (let columns = split_columns ciphertext key_len;
          ic_sum = fold (\<lambda>col ic_sum. float_add fl ic_sum (calculate_ic fl col)) columns
                        (float_of_int fl 0)
      in float_div fl ic_sum (float_of_int fl (int key_len)))"

record analysis =
  text_length :: nat
  factors :: "nat list"
  ic_scores :: "(nat \<times> real) list"
  suggested_key_lengths :: "nat list"

text \<open>
  \<^verbatim>\<open>analyze_ciphertext\<close>. \<^verbatim>\<open>ic_scores\<close> is a dictionary keyed by the trial lengths in
  increasing order; \<^verbatim>\<open>sorted(ic_scores.keys(), key=...)\<close> is a stable sort of its keys, and
  the key function looks the score up again.
\<close>

definition ic_lookup :: "(nat \<times> real) list \<Rightarrow> nat \<Rightarrow> real" where
  "ic_lookup scores k = (case map_of scores k of Some v \<Rightarrow> v | None \<Rightarrow> 0)"

definition analyze_ciphertext :: "float_ops \<Rightarrow> string \<Rightarrow> analysis" where
  "analyze_ciphertext fl ciphertext =
     (let len = length ciphertext;
          factors = filter (\<lambda>i. len mod i = 0) [2..<min len 20];
          ic_scores = map (\<lambda>key_len. (key_len, average_ic fl ciphertext key_len))
                          [2..<min (len div 2) 15]
      in \<lparr>text_length = len,
          factors = factors,
          ic_scores = ic_scores,
          suggested_key_lengths =
            take 5 (sort_key (\<lambda>k. \<bar>float_sub fl (ic_lookup ic_scores k) (float_0_067 fl)\<bar>)
                             (map fst ic_scores))\<rparr>)"

section \<open>Orders used to state the results\<close>

text \<open>
  The comparison of Python on sequences: lexicographic, a proper prefix being smaller. On
  strings it is the comparison of \<^verbatim>\<open>str\<close>.
\<close>

fun lex_less :: "('a::linorder) list \<Rightarrow> 'a list \<Rightarrow> bool" where
  "lex_less [] [] = False"
| "lex_less [] (y # ys) = True"
| "lex_less (x # xs) [] = False"
| "lex_less (x # xs) (y # ys) = (x < y \<or> (x = y \<and> lex_less xs ys))"

text \<open>
  The order in which \<^verbatim>\<open>brute_force_attack\<close> tries the keys: shorter keys first, keys of
  one length in lexicographic order. A result ranks before another when its score is higher,
  or the scores are equal and its key is tried first.
\<close>

definition key_before :: "string \<Rightarrow> string \<Rightarrow> bool" where
  "key_before k1 k2 = (length k1 < length k2 \<or> (length k1 = length k2 \<and> lex_less k1 k2))"

definition ranked_before :: "string \<times> string \<times> real \<Rightarrow> string \<times> string \<times> real \<Rightarrow> bool" where
  "ranked_before a b =
     (snd (snd a) > snd (snd b) \<or> (snd (snd a) = snd (snd b) \<and> key_before (fst a) (fst b)))"

text \<open>The results of \<^const>\<open>brute_force_attack\<close> before the final sort.\<close>

definition candidates ::
  "(string \<Rightarrow> error + real) \<Rightarrow> string \<Rightarrow> nat \<Rightarrow> (string \<times> string \<times> real) list" where
  "candidates scorer ct max_key_length =
     concat (map (\<lambda>key_length. concat (map (try_key scorer ct) (key_perms key_length)))
                 [1..<Suc max_key_length])"

text \<open>
  For the suggested key lengths: the trial lengths of \<^const>\<open>analyze_ciphertext\<close>, the
  distance of a trial length's average index of coincidence from 0.067 as the source computes
  it, and the order by distance, then by length.
\<close>

definition trial_lengths :: "string \<Rightarrow> nat list" where
  "trial_lengths ciphertext = [2..<min (length ciphertext div 2) 15]"

definition ic_distance :: "float_ops \<Rightarrow> string \<Rightarrow> nat \<Rightarrow> real" where
  "ic_distance fl ciphertext key_len =
     \<bar>float_sub fl (average_ic fl ciphertext key_len) (float_0_067 fl)\<bar>"

definition closer :: "float_ops \<Rightarrow> string \<Rightarrow> nat \<Rightarrow> nat \<Rightarrow> bool" where
  "closer fl ciphertext a b =
     (ic_distance fl ciphertext a < ic_distance fl ciphertext b
      \<or> (ic_distance fl ciphertext a = ic_distance fl ciphertext b \<and> a < b))"

text \<open>
  The invariant of the refill loop of \<^const>\<open>crossover_keys\<close>, for the proofs: the positions
  still to fill (\<open>todo\<close>) are exactly those holding the placeholder \<open>z\<close>, the characters
  placed are different from each other and come from \<open>key2\<close>, and every character of
  \<open>key2\<close> before \<open>pos\<close> is placed.
\<close>

definition refill_inv :: "char \<Rightarrow> string \<Rightarrow> nat list \<Rightarrow> string \<Rightarrow> nat \<Rightarrow> bool" where
  "refill_inv z key2 todo child pos =
     (length child = length key2 \<and> distinct todo \<and> set todo \<subseteq> {0..<length key2}
      \<and> (\<forall>i<length key2. child ! i = z \<longleftrightarrow> i \<in> set todo)
      \<and> (\<forall>i<length key2. \<forall>j<length key2. i \<noteq> j \<longrightarrow> child ! i \<noteq> z \<longrightarrow> child ! i \<noteq> child ! j)
      \<and> set child - {z} \<subseteq> set key2
      \<and> pos \<le> length key2 \<and> (\<forall>q<pos. key2 ! q \<in> set child))"

text \<open>
  The random draws a run of the genetic algorithm can see for keys of length \<open>n\<close>: every
  shuffle permutes the digits, and every sample is two different positions below \<open>n\<close>.
\<close>

definition sample_ok :: "nat \<Rightarrow> nat \<times> nat \<Rightarrow> bool" where
  "sample_ok n s = (fst s \<noteq> snd s \<and> fst s < n \<and> snd s < n)"

definition ga_random_ok :: "ga_random \<Rightarrow> nat \<Rightarrow> bool" where
  "ga_random_ok rnd n =
     ((\<forall>individual. mset (init_shuffle rnd individual [1..<Suc n]) = mset [1..<Suc n])
      \<and> (\<forall>generation child_no. sample_ok n (crossover_sample rnd generation child_no))
      \<and> (\<forall>generation child_no. sample_ok n (mutation_sample rnd generation child_no)))"

definition key_of_length :: "nat \<Rightarrow> string \<Rightarrow> bool" where
  "key_of_length n key = (is_permutation_key key \<and> length key = n)"

section \<open>Concrete runs\<close>

text \<open>
  A run of \<^const>\<open>hill_climbing_run\<close> on the ciphertext \<open>THE\<close> with keys of length 3:
  the first random key is \<open>231\<close>, every later one \<open>123\<close>, and every neighbour swaps the
  first two positions. The three scores are those of the plaintexts \<open>HET\<close>, \<open>EHT\<close> and
  \<open>THE\<close>.
\<close>

definition stuck_shuffle_at :: "nat \<Rightarrow> nat list \<Rightarrow> nat list" where
  "stuck_shuffle_at k digits = (if k = 0 then [2, 3, 1] else digits)"

definition stuck_sample_at :: "nat \<Rightarrow> nat \<times> nat" where
  "stuck_sample_at iteration = (0, 1)"

definition score_HET :: real where
  "score_HET = 1149334013599162859 / 20536776191250000"

definition score_EHT :: real where
  "score_EHT = 807054410411662859 / 27382368255000000"

definition score_THE :: real where
  "score_THE = 2176172823161662859 / 18254912170000000"

text \<open>Random draws for \<^const>\<open>genetic_algorithm_attack\<close>: every shuffle leaves the digits in place.\<close>

definition plain_random :: ga_random where
  "plain_random =
     \<lparr>init_shuffle = (\<lambda>individual digits. digits),
      parent1_choice = (\<lambda>generation child_no. 0),
      parent2_choice = (\<lambda>generation child_no. 1),
      crossover_sample = (\<lambda>generation child_no. (0, 1)),
      mutation_draw = (\<lambda>generation child_no. 1),
      mutation_sample = (\<lambda>generation child_no. (0, 1))\<rparr>"

text \<open>
  Binary64 arithmetic, for the index computations of \<^const>\<open>analyze_ciphertext\<close>: each
  operation returns the exact result rounded to the nearest number of 53 significant bits,
  ties going to the even significand, as IEEE 754 prescribes for the conversion of an
  integer, for \<^verbatim>\<open>+\<close>, \<^verbatim>\<open>-\<close> and \<^verbatim>\<open>/\<close>, and as Python reads the literal
  \<^verbatim>\<open>0.067\<close>. Overflow, subnormal numbers and division by zero are left out: the counts
  are small integers, the indices lie between 0 and 1, and the divisors are integers from 2
  on. For \<open>a > 0\<close>, \<open>binary_exponent a\<close> is an \<open>e\<close> with
  \<open>2 ^ e \<le> a \<le> 2 ^ (e + 1)\<close>, so that \<open>a * 2 ^ (52 - e)\<close> lies between \<open>2 ^ 52\<close> and
  \<open>2 ^ 53\<close>, where the representable numbers are the integers.
\<close>

fun bit_length :: "nat \<Rightarrow> nat" where
  "bit_length n = (if n = 0 then 0 else Suc (bit_length (n div 2)))"

declare bit_length.simps [simp del]

definition pow2 :: "int \<Rightarrow> real" where
  "pow2 e = (if 0 \<le> e then 2 ^ nat e else 1 / 2 ^ nat (- e))"

definition round_half_even :: "real \<Rightarrow> int" where
  "round_half_even m =
     (let f = \<lfloor>m\<rfloor>; r = m - of_int f
      in if r < 1 / 2 then f else if 1 / 2 < r then f + 1 else if even f then f else f + 1)"

definition binary_exponent :: "real \<Rightarrow> int" where
  "binary_exponent a =
     (if 1 \<le> a then int (bit_length (nat \<lfloor>a\<rfloor>)) - 1
      else - int (bit_length (nat \<lfloor>1 / a\<rfloor>)))"

definition round64 :: "real \<Rightarrow> real" where
  "round64 x =
     (if x = 0 then 0
      else
        (let a = \<bar>x\<bar>;
             e = binary_exponent a;
             m = round_half_even (a * pow2 (52 - e))
         in sgn x * (of_int m * pow2 (e - 52))))"

definition binary64 :: float_ops where
  "binary64 =
     \<lparr>float_of_int = (\<lambda>i. round64 (of_int i)),
      float_add = (\<lambda>x y. round64 (x + y)),
      float_sub = (\<lambda>x y. round64 (x - y)),
      float_div = (\<lambda>x y. round64 (x / y)),
      float_0_067 = round64 (67 / 1000)\<rparr>"

section \<open>Digits and decimal strings\<close>

lemma is_digit_char_iff: "is_digit_char c \<longleftrightarrow> 48 \<le> (of_char c :: nat) \<and> (of_char c :: nat) \<le> 57"
  by (simp add: is_digit_char_def less_eq_char_def)

lemma digit_char_value: "is_digit_char c \<Longrightarrow> digit_char (digit_value c) = c"
  by (simp add: is_digit_char_iff digit_char_def digit_value_def)

lemma digit_value_le: "is_digit_char c \<Longrightarrow> digit_value c \<le> 9"
  unfolding is_digit_char_iff digit_value_def by linarith

lemma digit_value_char: "d \<le> 9 \<Longrightarrow> digit_value (digit_char d) = d"
  by (simp add: digit_char_def digit_value_def)

lemma is_digit_digit_char: "d \<le> 9 \<Longrightarrow> is_digit_char (digit_char d)"
  by (simp add: is_digit_char_iff digit_char_def)

lemma str_nat_small: "n < 10 \<Longrightarrow> str_nat n = [digit_char n]"
  by (simp add: str_nat.simps)

lemma length_str_nat_big: "10 \<le> n \<Longrightarrow> 2 \<le> length (str_nat n)"
  by (subst str_nat.simps) (simp add: Suc_le_eq str_nat.simps[of "n div 10"])

lemma str_nat_not_Nil: "str_nat n \<noteq> []"
  by (subst str_nat.simps) simp

lemma length_str_nat_1: "length (str_nat n) = 1 \<longleftrightarrow> n < 10"
  using length_str_nat_big[of n] str_nat_small[of n] by (cases "n < 10") auto

lemma set_upt_1_Suc: "set [1..<Suc n] = {1..n}"
  by auto

lemma validate_key_numeric_len:
  assumes "(\<lambda>c. [c]) ` set key = str_nat ` set [1..<Suc (length key)]"
  shows "length key \<le> 9"
proof (rule ccontr)
  assume "\<not> length key \<le> 9"
  then have "(10::nat) \<in> {1..length key}" by simp
  then have "str_nat 10 \<in> str_nat ` set [1..<Suc (length key)]"
    unfolding set_upt_1_Suc by (rule imageI)
  then have "str_nat 10 \<in> (\<lambda>c. [c]) ` set key" unfolding assms .
  then obtain c where "str_nat 10 = [c]" by (rule imageE)
  then have "length (str_nat 10) = 1" by simp
  then show False using length_str_nat_big[of 10] by simp
qed

lemma validate_key_iff_aux:
  assumes "key \<noteq> []" "list_all is_digit_char key"
  shows "(\<lambda>c. [c]) ` set key = str_nat ` set [1..<Suc (length key)]
         \<longleftrightarrow> digit_value ` set key = {1..length key}"
proof
  assume eq: "(\<lambda>c. [c]) ` set key = str_nat ` set [1..<Suc (length key)]"
  have n9: "length key \<le> 9" by (rule validate_key_numeric_len[OF eq])
  show "digit_value ` set key = {1..length key}"
  proof (rule set_eqI)
    fix i
    show "i \<in> digit_value ` set key \<longleftrightarrow> i \<in> {1..length key}"
    proof
      assume "i \<in> digit_value ` set key"
      then obtain c where c: "c \<in> set key" "i = digit_value c" by auto
      with eq obtain j where j: "j \<in> {1..length key}" "[c] = str_nat j"
        unfolding set_upt_1_Suc by blast
      from j(1) n9 have j9: "j < 10" by simp
      with j have "c = digit_char j" by (simp add: str_nat_small)
      with j j9 c show "i \<in> {1..length key}" by (simp add: digit_value_char)
    next
      assume i: "i \<in> {1..length key}"
      then have "str_nat i \<in> (\<lambda>c. [c]) ` set key"
        unfolding eq set_upt_1_Suc by (rule imageI)
      then obtain c where c: "c \<in> set key" "str_nat i = [c]" by auto
      from i n9 have i9: "i < 10" by simp
      with c have "c = digit_char i" by (simp add: str_nat_small)
      with i9 have "digit_value c = i" by (simp add: digit_value_char)
      with c show "i \<in> digit_value ` set key" by (metis imageI)
    qed
  qed
next
  assume eq: "digit_value ` set key = {1..length key}"
  have dig: "\<And>c. c \<in> set key \<Longrightarrow> is_digit_char c"
    using assms(2) by (simp add: list_all_iff)
  from assms(1) have "length key \<in> {1..length key}" by (cases key) auto
  with eq obtain c where "c \<in> set key" "length key = digit_value c" by (metis imageE)
  then have n9: "length key \<le> 9" using digit_value_le dig by metis
  show "(\<lambda>c. [c]) ` set key = str_nat ` set [1..<Suc (length key)]"
  proof (rule set_eqI)
    fix s
    show "s \<in> (\<lambda>c. [c]) ` set key \<longleftrightarrow> s \<in> str_nat ` set [1..<Suc (length key)]"
    proof
      assume "s \<in> (\<lambda>c. [c]) ` set key"
      then obtain c where c: "c \<in> set key" "s = [c]" by auto
      then have v: "digit_value c \<in> {1..length key}" using eq by blast
      have "str_nat (digit_value c) = [c]"
        using dig[OF c(1)] digit_value_le[OF dig[OF c(1)]]
        by (simp add: str_nat_small digit_char_value)
      with v c show "s \<in> str_nat ` set [1..<Suc (length key)]"
        unfolding set_upt_1_Suc by (metis imageI)
    next
      assume "s \<in> str_nat ` set [1..<Suc (length key)]"
      then obtain i where i: "i \<in> {1..length key}" "s = str_nat i"
        unfolding set_upt_1_Suc by auto
      then have "i \<in> digit_value ` set key" using eq by simp
      then obtain c where c: "c \<in> set key" "i = digit_value c" by auto
      have "str_nat i = [c]"
        using dig[OF c(1)] digit_value_le[OF dig[OF c(1)]] c(2)
        by (simp add: str_nat_small digit_char_value)
      with i c show "s \<in> (\<lambda>c. [c]) ` set key" by simp
    qed
  qed
qed

lemma is_permutation_key_mset:
  "is_permutation_key key \<longleftrightarrow>
     list_all is_digit_char key \<and> mset (map digit_value key) = mset [1..<Suc (length key)]"
proof
  assume p: "is_permutation_key key"
  then have dig: "list_all is_digit_char key" and dv: "digit_value ` set key = {1..length key}"
    by (simp_all add: is_permutation_key_def)
  let ?ys = "map digit_value key"
  have "card (set ?ys) = length ?ys" using dv by simp
  then have "distinct ?ys" by (rule card_distinct)
  moreover have "set ?ys = set [1..<Suc (length key)]" unfolding set_upt_1_Suc using dv by simp
  ultimately have "mset ?ys = mset [1..<Suc (length key)]"
    by (metis distinct_upt set_eq_iff_mset_eq_distinct)
  with dig show "list_all is_digit_char key \<and> mset (map digit_value key) = mset [1..<Suc (length key)]"
    by simp
next
  assume a: "list_all is_digit_char key \<and> mset (map digit_value key) = mset [1..<Suc (length key)]"
  then have "set (map digit_value key) = set [1..<Suc (length key)]" by (metis mset_eq_setD)
  then have "digit_value ` set key = {1..length key}" unfolding set_upt_1_Suc by simp
  with a show "is_permutation_key key" by (simp add: is_permutation_key_def)
qed

text \<open>
  Claim C6. \<^const>\<open>validate_key\<close> holds exactly of the non-empty keys that are either
  all digits whose values form the set \<open>{1..length key}\<close>, or all alphabetic; and the
  digits of such a numeric key are a permutation of \<open>1..n\<close>.
\<close>

theorem validate_key_iff:
  "(validate_key key \<longleftrightarrow>
      key \<noteq> [] \<and> (is_permutation_key key \<or> list_all is_alpha_char key))
   \<and> (is_permutation_key key \<longleftrightarrow>
      list_all is_digit_char key
      \<and> mset (map digit_value key) = mset [1..<Suc (length key)])"
proof
  show "validate_key key \<longleftrightarrow>
      key \<noteq> [] \<and> (is_permutation_key key \<or> list_all is_alpha_char key)"
  proof (cases "key = []")
    case True
    then show ?thesis by (simp add: validate_key_def)
  next
    case ne: False
    show ?thesis
    proof (cases "list_all is_digit_char key")
      case True
      have "\<not> list_all is_alpha_char key"
      proof
        assume a: "list_all is_alpha_char key"
        from ne obtain c where "c \<in> set key" by (cases key) auto
        with a True have "is_alpha_char c" "is_digit_char c" by (simp_all add: list_all_iff)
        then show False
          by (auto simp: is_alpha_char_def is_digit_char_def less_eq_char_def)
      qed
      with ne True validate_key_iff_aux[OF ne True] show ?thesis
        by (simp add: validate_key_def isdigit_def is_permutation_key_def Let_def)
    next
      case False
      with ne show ?thesis
        by (simp add: validate_key_def isdigit_def isalpha_def is_permutation_key_def)
    qed
  qed
  show "is_permutation_key key \<longleftrightarrow>
      list_all is_digit_char key
      \<and> mset (map digit_value key) = mset [1..<Suc (length key)]"
    by (rule is_permutation_key_mset)
qed

theorem validate_key_iff_witness: "validate_key ''3142'' \<and> \<not> validate_key ''3143''"
proof -
  have a: "is_permutation_key ''3142''" by code_simp
  have b: "\<not> is_permutation_key ''3143''" by code_simp
  have c: "\<not> list_all is_alpha_char ''3143''" by code_simp
  from a b c show ?thesis
    using validate_key_iff[of "''3142''"] validate_key_iff[of "''3143''"] by simp
qed

section \<open>The cipher: keys, columns and the round trip\<close>

lemma digit_char_inj: "a \<le> 9 \<Longrightarrow> b \<le> 9 \<Longrightarrow> digit_char a = digit_char b \<Longrightarrow> a = b"
  by (metis digit_value_char)

lemma validate_numeric_ok:
  assumes v: "validate_key k" and d: "isdigit k"
  shows "numeric_ok k"
proof -
  have ne: "k \<noteq> []" and dig: "list_all is_digit_char k" using d by (simp_all add: isdigit_def)
  have eq: "(\<lambda>c. [c]) ` set k = str_nat ` set [1..<Suc (length k)]"
    using v d ne by (simp add: validate_key_def Let_def)
  have n9: "length k \<le> 9" by (rule validate_key_numeric_len[OF eq])
  have dv: "digit_value ` set k = {1..length k}"
    using validate_key_iff_aux[OF ne dig] eq by simp
  have setk: "set k = digit_char ` {1..length k}"
  proof -
    have "set k = digit_char ` digit_value ` set k"
    proof -
      have "\<And>c. c \<in> set k \<Longrightarrow> digit_char (digit_value c) = c"
        using dig by (simp add: list_all_iff digit_char_value)
      then show ?thesis by (auto simp: image_iff)
    qed
    then show ?thesis by (simp add: dv)
  qed
  have "card (set k) = length k"
  proof -
    have "inj_on digit_char {1..length k}"
    proof (rule inj_onI)
      fix a b assume "a \<in> {1..length k}" "b \<in> {1..length k}" "digit_char a = digit_char b"
      with n9 show "a = b" by (auto intro: digit_char_inj)
    qed
    then have "card (digit_char ` {1..length k}) = card {1..length k}" by (rule card_image)
    then show ?thesis unfolding setk by simp
  qed
  then have "distinct k" by (rule card_distinct)
  with ne n9 setk show ?thesis by (simp add: numeric_ok_def)
qed

lemma index_str_single_mem:
  "c \<in> set s \<Longrightarrow> \<exists>i. index_str s [c] = Some i \<and> i < length s \<and> s ! i = c"
  by (induction s) auto

lemma index_str_single_distinct:
  "distinct s \<Longrightarrow> i < length s \<Longrightarrow> index_str s [s ! i] = Some i"
proof (induction s arbitrary: i)
  case Nil
  then show ?case by simp
next
  case (Cons x xs)
  show ?case
  proof (cases i)
    case 0
    then show ?thesis by simp
  next
    case (Suc j)
    with Cons.prems have "xs ! j \<noteq> x" by auto
    with Suc Cons show ?thesis by simp
  qed
qed

lemma numeric_ok_lookup:
  assumes ok: "numeric_ok nk" and c: "c \<in> {1..length nk}"
  shows "\<exists>j. index_str nk (str_nat c) = Some j \<and> j < length nk \<and> nk ! j = digit_char c"
proof -
  from ok have n9: "length nk \<le> 9" and s: "set nk = digit_char ` {1..length nk}"
    by (simp_all add: numeric_ok_def)
  from c n9 have c10: "c < 10" by simp
  from c have "digit_char c \<in> set nk" unfolding s by (rule imageI)
  from index_str_single_mem[OF this] c10 show ?thesis by (simp add: str_nat_small)
qed

lemma column_order_props:
  assumes ok: "numeric_ok nk"
  shows "length (column_order nk) = length nk"
    and "distinct (column_order nk)"
    and "set (column_order nk) = {0..<length nk}"
proof -
  let ?n = "length nk"
  let ?f = "\<lambda>col_num. the (index_str nk (str_nat col_num))"
  show len: "length (column_order nk) = ?n" by (simp add: column_order_def del: upt_Suc)
  have n9: "?n \<le> 9" using ok by (simp add: numeric_ok_def)
  have f: "\<And>c. c \<in> set [1..<Suc ?n] \<Longrightarrow> ?f c < ?n \<and> nk ! ?f c = digit_char c"
    unfolding set_upt_1_Suc using numeric_ok_lookup[OF ok] by fastforce
  have inj: "inj_on ?f (set [1..<Suc ?n])"
  proof (rule inj_onI)
    fix a b assume a: "a \<in> set [1..<Suc ?n]" and b: "b \<in> set [1..<Suc ?n]" and e: "?f a = ?f b"
    from f[OF a] f[OF b] e have "digit_char a = digit_char b" by metis
    moreover from a b n9 have "a \<le> 9" "b \<le> 9" unfolding set_upt_1_Suc by auto
    ultimately show "a = b" by (rule digit_char_inj[rotated 2])
  qed
  show dist: "distinct (column_order nk)"
    unfolding column_order_def using inj by (simp add: distinct_map del: upt_Suc)
  have sub: "set (column_order nk) \<subseteq> {0..<?n}"
    unfolding column_order_def using f by (auto simp del: upt_Suc)
  have "card (set (column_order nk)) = ?n" using dist len by (simp add: distinct_card)
  with sub show "set (column_order nk) = {0..<?n}"
    by (metis card_atLeastLessThan card_subset_eq finite_atLeastLessThan minus_nat.diff_0)
qed

lemma read_columns_ok:
  "\<forall>c\<in>set cs. index_str nk (str_nat c) \<noteq> None \<Longrightarrow>
   read_columns nk m cs acc =
     Inr (acc @ concat (map (\<lambda>c. map (\<lambda>row. row ! the (index_str nk (str_nat c))) m) cs))"
  by (induction cs arbitrary: acc) auto

lemma fill_columns_ok:
  "\<forall>c\<in>set cs. index_str nk (str_nat c) \<noteq> None \<Longrightarrow>
   fill_columns nk ct r cs st =
     Inr (fold (\<lambda>j. fill_column ct j r) (map (\<lambda>c. the (index_str nk (str_nat c))) cs) st)"
proof (induction cs arbitrary: st)
  case Nil
  then show ?case by simp
next
  case (Cons c cs)
  from Cons.prems obtain j where j: "index_str nk (str_nat c) = Some j" by auto
  from Cons.prems have "\<forall>c\<in>set cs. index_str nk (str_nat c) \<noteq> None" by simp
  from Cons.IH[OF this, of "fill_column ct j r st"] j show ?case by simp
qed

lemma fill_column_prefix:
  assumes "k \<le> r" "length m = r" "p + k \<le> length ct"
  shows "fold (\<lambda>row_idx (matrix, char_idx).
             if char_idx < length ct
             then (matrix[row_idx := (matrix ! row_idx)[j := [ct ! char_idx]]], char_idx + 1)
             else (matrix, char_idx)) [0..<k] (m, p)
         = (map (\<lambda>i. if i < k then (m ! i)[j := [ct ! (p + i)]] else m ! i) [0..<r], p + k)"
  using assms
proof (induction k)
  case 0
  have "map ((!) m) [0..<length m] = m" by (rule map_nth)
  with 0 show ?case by simp
next
  case (Suc k)
  let ?mk = "map (\<lambda>i. if i < k then (m ! i)[j := [ct ! (p + i)]] else m ! i) [0..<r]"
  from Suc.prems have k: "k < r" "p + k < length ct" by simp_all
  have upd: "?mk[k := (?mk ! k)[j := [ct ! (p + k)]]]
             = map (\<lambda>i. if i < Suc k then (m ! i)[j := [ct ! (p + i)]] else m ! i) [0..<r]"
    using k by (intro nth_equalityI) (auto simp: nth_list_update less_Suc_eq)
  from Suc.IH Suc.prems k upd show ?case by simp
qed

lemma fill_column_full:
  assumes "length m = r" "p + r \<le> length ct"
  shows "fill_column ct j r (m, p) = (map (\<lambda>i. (m ! i)[j := [ct ! (p + i)]]) [0..<r], p + r)"
  unfolding fill_column_def using fill_column_prefix[OF le_refl assms, of j] by simp

lemma fill_columns_fold:
  assumes "length m = r" "p + length js * r \<le> length ct"
    and "\<And>i. i < r \<Longrightarrow> length (m ! i) = n" "distinct js" "set js \<subseteq> {0..<n}"
  shows "\<exists>m'. fold (\<lambda>j. fill_column ct j r) js (m, p) = (m', p + length js * r)
           \<and> length m' = r
           \<and> (\<forall>i<r. length (m' ! i) = n
                  \<and> (\<forall>k<length js. m' ! i ! (js ! k) = [ct ! (p + k * r + i)])
                  \<and> (\<forall>j<n. j \<notin> set js \<longrightarrow> m' ! i ! j = m ! i ! j))"
  using assms
proof (induction js arbitrary: m p)
  case Nil
  then show ?case by simp
next
  case (Cons j js)
  let ?m1 = "map (\<lambda>i. (m ! i)[j := [ct ! (p + i)]]) [0..<r]"
  have pr: "p + r \<le> length ct" using Cons.prems(2) by simp
  have step: "fill_column ct j r (m, p) = (?m1, p + r)"
    by (rule fill_column_full[OF Cons.prems(1) pr])
  have l1: "length ?m1 = r" by simp
  have p1: "p + r + length js * r \<le> length ct" using Cons.prems(2) by simp
  have r1: "\<And>i. i < r \<Longrightarrow> length (?m1 ! i) = n" using Cons.prems(3) by simp
  have d1: "distinct js" and s1: "set js \<subseteq> {0..<n}" and jn: "j < n" and jns: "j \<notin> set js"
    using Cons.prems(4,5) by auto
  from Cons.IH[OF l1 p1 r1 d1 s1] obtain m' where
    f: "fold (\<lambda>j. fill_column ct j r) js (?m1, p + r) = (m', p + r + length js * r)"
    and lm: "length m' = r"
    and rows: "\<forall>i<r. length (m' ! i) = n
                  \<and> (\<forall>k<length js. m' ! i ! (js ! k) = [ct ! (p + r + k * r + i)])
                  \<and> (\<forall>ja<n. ja \<notin> set js \<longrightarrow> m' ! i ! ja = ?m1 ! i ! ja)"
    by blast
  have "\<forall>i<r. length (m' ! i) = n
          \<and> (\<forall>k<length (j # js). m' ! i ! ((j # js) ! k) = [ct ! (p + k * r + i)])
          \<and> (\<forall>ja<n. ja \<notin> set (j # js) \<longrightarrow> m' ! i ! ja = m ! i ! ja)"
  proof (intro allI impI conjI)
    fix i assume i: "i < r"
    show "length (m' ! i) = n" using rows i by simp
  next
    fix i k assume i: "i < r" and k: "k < length (j # js)"
    show "m' ! i ! ((j # js) ! k) = [ct ! (p + k * r + i)]"
    proof (cases k)
      case 0
      have "m' ! i ! j = ?m1 ! i ! j" using rows i jn jns by simp
      also have "\<dots> = [ct ! (p + i)]" using i jn Cons.prems(3)[OF i] by simp
      finally show ?thesis using 0 by simp
    next
      case (Suc k')
      with k have "k' < length js" by simp
      with rows i have "m' ! i ! (js ! k') = [ct ! (p + r + k' * r + i)]" by simp
      with Suc show ?thesis by (simp add: add.assoc)
    qed
  next
    fix i ja assume i: "i < r" and ja: "ja < n" "ja \<notin> set (j # js)"
    then have "m' ! i ! ja = ?m1 ! i ! ja" using rows by simp
    also have "\<dots> = m ! i ! ja" using i ja by simp
    finally show "m' ! i ! ja = m ! i ! ja" .
  qed
  with f lm step show ?case by (simp add: add.assoc add.commute)
qed

lemma concat_uniform_length:
  "\<forall>x\<in>set xss. length x = r \<Longrightarrow> length (concat xss) = length xss * r"
  by (induction xss) auto

lemma concat_uniform_nth:
  "\<forall>x\<in>set xss. length x = r \<Longrightarrow> k < length xss \<Longrightarrow> i < r
   \<Longrightarrow> concat xss ! (k * r + i) = xss ! k ! i"
proof (induction xss arbitrary: k)
  case Nil
  then show ?case by simp
next
  case (Cons x xss)
  show ?case
  proof (cases k)
    case 0
    with Cons.prems show ?thesis by (simp add: nth_append)
  next
    case (Suc k')
    have "length x = r" using Cons.prems(1) by simp
    moreover have "concat xss ! (k' * r + i) = xss ! k' ! i"
      using Cons.IH[of k'] Cons.prems Suc by simp
    ultimately show ?thesis using Suc by (simp add: nth_append)
  qed
qed

lemma rows_concat:
  "r * n \<le> length T \<Longrightarrow>
   concat (map (\<lambda>i. map (\<lambda>j. T ! (i * n + j)) [0..<n]) [0..<r]) = take (r * n) T"
proof (induction r)
  case 0
  then show ?case by simp
next
  case (Suc r)
  have "map (\<lambda>j. T ! (r * n + j)) [0..<n] = take n (drop (r * n) T)"
    using Suc.prems by (intro nth_equalityI) auto
  moreover have "take (r * n) T @ take n (drop (r * n) T) = take (r * n + n) T"
    by (simp add: take_add)
  ultimately show ?case using Suc by (simp add: add.commute)
qed

lemma rstrip_padding: "c \<notin> set s \<Longrightarrow> rstrip c (s @ replicate k c) = s"
proof -
  assume c: "c \<notin> set s"
  have "dropWhile (\<lambda>x. x = c) (replicate k c @ rev s) = dropWhile (\<lambda>x. x = c) (rev s)"
    by (rule dropWhile_append2) simp
  moreover have "dropWhile (\<lambda>x. x = c) (rev s) = rev s"
  proof (cases "rev s")
    case Nil
    then show ?thesis by simp
  next
    case (Cons a as)
    then have "a \<in> set s" by (metis list.set_intros(1) set_rev)
    with c have "a \<noteq> c" by auto
    with Cons show ?thesis by simp
  qed
  ultimately show ?thesis by (simp add: rstrip_def)
qed

lemma ceil_div_bounds: "0 < n \<Longrightarrow> l \<le> ceil_div l n * n"
proof -
  assume n: "0 < n"
  have "l + n - 1 < (l + n - 1) div n * n + n"
    using n by (metis add.commute div_mult_mod_eq add_less_cancel_left mod_less_divisor mult.commute)
  then show ?thesis using n by (simp add: ceil_div_def)
qed

lemma ceil_div_mult: "0 < n \<Longrightarrow> ceil_div (r * n) n = r"
proof -
  assume n: "0 < n"
  then obtain k where k: "n = Suc k" by (cases n) auto
  have a: "r * n + n - 1 = r * n + k" using k by simp
  have "(r * n + k) div n = r + k div n" using n by (subst div_mult_self3) auto
  also have "k div n = 0" using k by simp
  finally show ?thesis unfolding ceil_div_def a by simp
qed

lemma build_matrix_nth:
  "i < r \<Longrightarrow> j < n \<Longrightarrow> length T = r * n \<Longrightarrow> build_matrix T r n ! i ! j = T ! (i * n + j)"
proof -
  assume i: "i < r" and j: "j < n" and T: "length T = r * n"
  have "i * n + j < r * n"
  proof -
    have "i * n + j < i * n + n" using j by simp
    also have "\<dots> = Suc i * n" by simp
    also have "\<dots> \<le> r * n" using i by (intro mult_le_mono1) simp
    finally show ?thesis .
  qed
  with i j T show ?thesis by (simp add: build_matrix_def Let_def)
qed

lemma length_build_matrix: "length (build_matrix T r n) = r"
  by (simp add: build_matrix_def)

text \<open>The round trip on a well-formed numeric key, before the padding is stripped.\<close>

lemma transposition_round_trip:
  assumes ok: "numeric_ok nk" and T: "length T = r * length nk"
  shows "\<exists>ct. read_columns nk (build_matrix T r (length nk)) [1..<Suc (length nk)] [] = Inr ct
           \<and> length ct = length nk * r
           \<and> (\<exists>m' p'. fill_columns nk ct r [1..<Suc (length nk)]
                          (replicate r (replicate (length nk) []), 0) = Inr (m', p')
                     \<and> concat (map concat m') = T)"
proof -
  let ?n = "length nk"
  let ?M = "build_matrix T r ?n"
  let ?js = "column_order nk"
  let ?ct = "concat (map (\<lambda>j. map (\<lambda>row. row ! j) ?M) ?js)"
  let ?m0 = "replicate r (replicate ?n ([]::string))"
  have look: "\<forall>c\<in>set [1..<Suc ?n]. index_str nk (str_nat c) \<noteq> None"
    unfolding set_upt_1_Suc using numeric_ok_lookup[OF ok] by fastforce
  have enc: "read_columns nk ?M [1..<Suc ?n] [] = Inr ?ct"
    using read_columns_ok[OF look, where m = ?M and acc = "[]"]
    by (simp add: column_order_def comp_def del: upt_Suc)
  have jl: "length ?js = ?n" and jd: "distinct ?js" and js: "set ?js = {0..<?n}"
    using column_order_props[OF ok] by simp_all
  have chunk: "\<forall>x\<in>set (map (\<lambda>j. map (\<lambda>row. row ! j) ?M) ?js). length x = r"
    by (auto simp: length_build_matrix)
  have lct: "length ?ct = ?n * r"
    using concat_uniform_length[OF chunk] jl by simp
  have ctn: "\<And>k i. k < ?n \<Longrightarrow> i < r \<Longrightarrow> ?ct ! (k * r + i) = T ! (i * ?n + ?js ! k)"
  proof -
    fix k i assume k: "k < ?n" and i: "i < r"
    have jk: "?js ! k < ?n" using js jl k by (metis atLeastLessThan_iff nth_mem)
    have "?ct ! (k * r + i) = map (\<lambda>j. map (\<lambda>row. row ! j) ?M) ?js ! k ! i"
      using k i jl by (intro concat_uniform_nth[OF chunk]) simp_all
    also have "\<dots> = ?M ! i ! (?js ! k)" using k i jl by (simp add: length_build_matrix)
    also have "\<dots> = T ! (i * ?n + ?js ! k)" using i jk T by (rule build_matrix_nth)
    finally show "?ct ! (k * r + i) = T ! (i * ?n + ?js ! k)" .
  qed
  have dec: "fill_columns nk ?ct r [1..<Suc ?n] (?m0, 0) = Inr (fold (\<lambda>j. fill_column ?ct j r) ?js (?m0, 0))"
    using fill_columns_ok[OF look, where ct = ?ct and r = r and st = "(?m0, 0)"]
    by (simp add: column_order_def del: upt_Suc)
  have "\<exists>m'. fold (\<lambda>j. fill_column ?ct j r) ?js (?m0, 0) = (m', 0 + length ?js * r)
           \<and> length m' = r
           \<and> (\<forall>i<r. length (m' ! i) = ?n
                  \<and> (\<forall>k<length ?js. m' ! i ! (?js ! k) = [?ct ! (0 + k * r + i)])
                  \<and> (\<forall>j<?n. j \<notin> set ?js \<longrightarrow> m' ! i ! j = ?m0 ! i ! j))"
    by (rule fill_columns_fold) (use lct jl jd js in simp_all)
  then obtain m' where
    f: "fold (\<lambda>j. fill_column ?ct j r) ?js (?m0, 0) = (m', ?n * r)"
    and lm: "length m' = r"
    and rl: "\<And>i. i < r \<Longrightarrow> length (m' ! i) = ?n"
    and cell: "\<And>i k. i < r \<Longrightarrow> k < ?n \<Longrightarrow> m' ! i ! (?js ! k) = [?ct ! (k * r + i)]"
    using jl by auto
  have cellT: "\<And>i j. i < r \<Longrightarrow> j < ?n \<Longrightarrow> m' ! i ! j = [T ! (i * ?n + j)]"
  proof -
    fix i j assume i: "i < r" and j: "j < ?n"
    then have "j \<in> set ?js" using js by simp
    then obtain k where k: "k < ?n" "?js ! k = j" using jl by (metis in_set_conv_nth)
    from cell[OF i k(1)] ctn[OF k(1) i] k(2) show "m' ! i ! j = [T ! (i * ?n + j)]" by simp
  qed
  have "m' = map (\<lambda>i. map (\<lambda>j. [T ! (i * ?n + j)]) [0..<?n]) [0..<r]"
  proof (rule nth_equalityI)
    show "length m' = length (map (\<lambda>i. map (\<lambda>j. [T ! (i * ?n + j)]) [0..<?n]) [0..<r])"
      using lm by simp
  next
    fix i assume "i < length m'"
    then have i: "i < r" using lm by simp
    have "m' ! i = map (\<lambda>j. [T ! (i * ?n + j)]) [0..<?n]"
      by (rule nth_equalityI) (use rl[OF i] cellT[OF i] in simp_all)
    then show "m' ! i = map (\<lambda>i. map (\<lambda>j. [T ! (i * ?n + j)]) [0..<?n]) [0..<r] ! i"
      using i by simp
  qed
  then have "map concat m' = map (\<lambda>i. map (\<lambda>j. T ! (i * ?n + j)) [0..<?n]) [0..<r]"
    by (simp add: comp_def concat_map_singleton)
  then have "concat (map concat m') = take (r * ?n) T"
    using rows_concat[of r ?n T] T by simp
  then have "concat (map concat m') = T" using T by simp
  with enc lct dec f show ?thesis by auto
qed

lemma fold_rank_length:
  "length (fold (\<lambda>(rank, (ch, original_idx)) nk. nk[original_idx := str_nat rank]) ps l) = length l"
  by (induction ps arbitrary: l) (auto split: prod.splits)

lemma fold_rank_other:
  "j \<notin> (snd \<circ> snd) ` set ps \<Longrightarrow>
   fold (\<lambda>(rank, (ch, original_idx)) nk. nk[original_idx := str_nat rank]) ps l ! j = l ! j"
proof (induction ps arbitrary: l)
  case Nil
  then show ?case by simp
next
  case (Cons p ps)
  obtain r c i where p: "p = (r, (c, i))" by (metis prod_cases3)
  with Cons.prems have "i \<noteq> j" "j \<notin> (snd \<circ> snd) ` set ps" by auto
  with Cons.IH[of "l[i := str_nat r]"] p show ?case by simp
qed

lemma fold_rank_nth:
  "distinct (map (snd \<circ> snd) ps) \<Longrightarrow> (r, (c, j)) \<in> set ps \<Longrightarrow> j < length l \<Longrightarrow>
   fold (\<lambda>(rank, (ch, original_idx)) nk. nk[original_idx := str_nat rank]) ps l ! j = str_nat r"
proof (induction ps arbitrary: l)
  case Nil
  then show ?case by simp
next
  case (Cons p ps)
  obtain r0 c0 i0 where p: "p = (r0, (c0, i0))" by (metis prod_cases3)
  show ?case
  proof (cases "(r, (c, j)) \<in> set ps")
    case True
    with Cons.IH[of "l[i0 := str_nat r0]"] Cons.prems p show ?thesis by simp
  next
    case False
    with Cons.prems p have e: "r0 = r" "c0 = c" "i0 = j" by auto
    from Cons.prems(1) p e have "j \<notin> (snd \<circ> snd) ` set ps" by simp
    from fold_rank_other[OF this, of "l[j := str_nat r]"] Cons.prems(3) p e
    show ?thesis by simp
  qed
qed

lemma concat_singletons: "\<forall>x\<in>set L. length x = 1 \<Longrightarrow> concat L = map hd L"
proof (induction L)
  case Nil
  then show ?case by simp
next
  case (Cons x L)
  then have "length x = 1" by simp
  then obtain a where "x = [a]" by (cases x) auto
  with Cons show ?case by simp
qed

lemma keyword_to_numeric_ok:
  assumes n9: "length keyword \<le> 9" and ne: "keyword \<noteq> []"
  shows "numeric_ok (keyword_to_numeric keyword)" and "length (keyword_to_numeric keyword) = length keyword"
proof -
  let ?n = "length keyword"
  let ?sc = "sort_key fst (zip (map upper_char keyword) [0..<?n])"
  let ?ps = "zip [1..<Suc ?n] ?sc"
  let ?F = "\<lambda>(rank, (ch, original_idx)) nk. nk[original_idx := str_nat rank]"
  let ?L = "fold ?F ?ps (replicate ?n ''0'')"
  let ?pi = "map snd ?sc"
  have nk: "keyword_to_numeric keyword = concat ?L"
    by (simp add: keyword_to_numeric_def Let_def del: upt_Suc)
  have lsc: "length ?sc = ?n" by simp
  have "mset ?pi = mset (map snd (zip (map upper_char keyword) [0..<?n]))"
    by (simp only: mset_map mset_sort)
  then have mpi: "mset ?pi = mset [0..<?n]" by simp
  have dpi: "distinct ?pi" using mpi by (metis distinct_upt mset_eq_imp_distinct_iff)
  have spi: "set ?pi = {0..<?n}" using mpi by (metis mset_eq_setD set_upt)
  have lL: "length ?L = ?n" by (simp add: fold_rank_length del: upt_Suc)
  have dps: "distinct (map (snd \<circ> snd) ?ps)"
  proof -
    have "map (snd \<circ> snd) ?ps = ?pi"
      by (simp add: map_snd_zip del: upt_Suc flip: map_map)
    with dpi show ?thesis by simp
  qed
  have cell: "\<And>k. k < ?n \<Longrightarrow> ?L ! (?pi ! k) = [digit_char (Suc k)]"
  proof -
    fix k assume k: "k < ?n"
    have "?ps ! k = (Suc k, ?sc ! k)" using k by (simp del: upt_Suc)
    moreover have "?ps ! k \<in> set ?ps" using k by (intro nth_mem) (simp del: upt_Suc)
    ultimately have mem: "(Suc k, (fst (?sc ! k), ?pi ! k)) \<in> set ?ps" using k by simp
    have "?pi ! k < ?n" using spi k by (metis atLeastLessThan_iff length_map lsc nth_mem)
    then have "?L ! (?pi ! k) = str_nat (Suc k)"
      by (intro fold_rank_nth[OF dps mem]) simp
    also have "\<dots> = [digit_char (Suc k)]" using k n9 by (simp add: str_nat_small)
    finally show "?L ! (?pi ! k) = [digit_char (Suc k)]" .
  qed
  have onto: "\<And>i. i < ?n \<Longrightarrow> \<exists>k<?n. ?pi ! k = i"
  proof -
    fix i assume "i < ?n"
    then have "i \<in> set ?pi" using spi by simp
    then show "\<exists>k<?n. ?pi ! k = i" by (metis in_set_conv_nth length_map lsc)
  qed
  have single: "\<forall>x\<in>set ?L. length x = 1"
  proof
    fix x assume "x \<in> set ?L"
    then obtain i where i: "i < ?n" "x = ?L ! i" using lL by (metis in_set_conv_nth)
    from onto[OF i(1)] obtain k where "k < ?n" "?pi ! k = i" by blast
    with cell[of k] i show "length x = 1" by simp
  qed
  have nk': "keyword_to_numeric keyword = map hd ?L"
    unfolding nk by (rule concat_singletons[OF single])
  show len: "length (keyword_to_numeric keyword) = ?n" unfolding nk' using lL by simp
  have nth: "\<And>k. k < ?n \<Longrightarrow> keyword_to_numeric keyword ! (?pi ! k) = digit_char (Suc k)"
  proof -
    fix k assume k: "k < ?n"
    have "?pi ! k < ?n" using spi k by (metis atLeastLessThan_iff length_map lsc nth_mem)
    then show "keyword_to_numeric keyword ! (?pi ! k) = digit_char (Suc k)"
      unfolding nk' using lL cell[OF k] by simp
  qed
  have set_eq: "set (keyword_to_numeric keyword) = digit_char ` {1..?n}"
  proof (rule set_eqI)
    fix c
    show "c \<in> set (keyword_to_numeric keyword) \<longleftrightarrow> c \<in> digit_char ` {1..?n}"
    proof
      assume "c \<in> set (keyword_to_numeric keyword)"
      then obtain i where i: "i < ?n" "c = keyword_to_numeric keyword ! i"
        using len by (metis in_set_conv_nth)
      from onto[OF i(1)] obtain k where k: "k < ?n" "?pi ! k = i" by blast
      with nth[OF k(1)] i have "c = digit_char (Suc k)" by simp
      moreover have "Suc k \<in> {1..?n}" using k by simp
      ultimately show "c \<in> digit_char ` {1..?n}" by (rule image_eqI)
    next
      assume "c \<in> digit_char ` {1..?n}"
      then obtain r where r: "r \<in> {1..?n}" "c = digit_char r" by auto
      then obtain k where k: "r = Suc k" "k < ?n" by (cases r) auto
      have "?pi ! k < ?n" using spi k by (metis atLeastLessThan_iff length_map lsc nth_mem)
      then have "keyword_to_numeric keyword ! (?pi ! k) \<in> set (keyword_to_numeric keyword)"
        using len by (intro nth_mem) simp
      with nth[OF k(2)] r k show "c \<in> set (keyword_to_numeric keyword)" by simp
    qed
  qed
  have "card (set (keyword_to_numeric keyword)) = ?n"
  proof -
    have "inj_on digit_char {1..?n}"
    proof (rule inj_onI)
      fix a b assume "a \<in> {1..?n}" "b \<in> {1..?n}" "digit_char a = digit_char b"
      with n9 show "a = b" by (auto intro: digit_char_inj)
    qed
    then have "card (digit_char ` {1..?n}) = card {1..?n}" by (rule card_image)
    then show ?thesis unfolding set_eq by simp
  qed
  then have "distinct (keyword_to_numeric keyword)" using len by (intro card_distinct) simp
  with ne n9 len set_eq show "numeric_ok (keyword_to_numeric keyword)"
    by (auto simp: numeric_ok_def)
qed

lemma numeric_ok_valid:
  assumes ok: "numeric_ok nk"
  shows "isdigit nk" and "validate_key nk"
proof -
  from ok have ne: "nk \<noteq> []" and n9: "length nk \<le> 9" and s: "set nk = digit_char ` {1..length nk}"
    by (simp_all add: numeric_ok_def)
  have dig: "list_all is_digit_char nk"
    unfolding list_all_iff s using n9 by (auto intro!: is_digit_digit_char)
  with ne show "isdigit nk" by (simp add: isdigit_def)
  have "digit_value ` set nk = {1..length nk}"
  proof -
    have "digit_value ` digit_char ` {1..length nk} = (\<lambda>d. d) ` {1..length nk}"
      unfolding image_image using n9 by (intro image_cong) (auto simp: digit_value_char)
    then show ?thesis unfolding s by simp
  qed
  with validate_key_iff_aux[OF ne dig] ne dig show "validate_key nk"
    by (simp add: validate_key_def isdigit_def)
qed

lemma normalize_key_ok:
  assumes v: "validate_key k" and n9: "length k \<le> 9"
  shows "\<exists>nk. normalize_key k = Inr nk \<and> numeric_ok nk"
proof (cases "isdigit k")
  case True
  with v validate_numeric_ok[OF v True] show ?thesis by (simp add: normalize_key_def)
next
  case False
  from v have "k \<noteq> []" by (auto simp: validate_key_def)
  from keyword_to_numeric_ok(1)[OF n9 this] v False show ?thesis
    by (simp add: normalize_key_def)
qed

text \<open>
  Claim C1, amended. For a valid key of at most nine characters and a plaintext without the
  filler character \<open>X\<close>, encrypting with \<open>keep_spaces = False\<close> succeeds, and decrypting
  the result with the same key returns the plaintext with its spaces removed (the plaintext
  itself when it has no space).
\<close>

theorem round_trip_no_spaces_kept:
  assumes v: "validate_key k" and n9: "length k \<le> 9" and x: "CHR ''X'' \<notin> set p"
  shows "\<exists>ct. encrypt p k False = Inr ct
           \<and> decrypt ct k = Inr (filter (\<lambda>c. c \<noteq> CHR '' '') p)"
proof -
  from normalize_key_ok[OF v n9] obtain nk where nk: "normalize_key k = Inr nk" and ok: "numeric_ok nk"
    by blast
  let ?n = "length nk"
  let ?p = "filter (\<lambda>c. c \<noteq> CHR '' '') p"
  let ?r = "ceil_div (length ?p) ?n"
  let ?T = "?p @ replicate (?r * ?n - length ?p) (CHR ''X'')"
  have n0: "0 < ?n" using ok by (simp add: numeric_ok_def)
  have lT: "length ?T = ?r * ?n" using ceil_div_bounds[OF n0, of "length ?p"] by simp
  from transposition_round_trip[OF ok lT] obtain ct m' p' where
    enc: "read_columns nk (build_matrix ?T ?r ?n) [1..<Suc ?n] [] = Inr ct"
    and lct: "length ct = ?n * ?r"
    and dec: "fill_columns nk ct ?r [1..<Suc ?n] (replicate ?r (replicate ?n []), 0) = Inr (m', p')"
    and cc: "concat (map concat m') = ?T"
    by blast
  have e: "encrypt p k False = Inr ct"
    using nk n0 enc by (simp add: encrypt_def Let_def del: upt_Suc)
  have rows: "ceil_div (length ct) ?n = ?r"
    using ceil_div_mult[OF n0, of ?r] lct by (simp add: mult.commute)
  have xp: "CHR ''X'' \<notin> set ?p" using x by simp
  have "decrypt ct k = Inr (rstrip (CHR ''X'') ?T)"
    using nk n0 rows dec cc by (simp add: decrypt_def Let_def del: upt_Suc)
  also have "rstrip (CHR ''X'') ?T = ?p" by (rule rstrip_padding[OF xp])
  finally show ?thesis using e by blast
qed

theorem round_trip_no_spaces_kept_witness:
  "validate_key ''312'' \<and> length ''312'' \<le> 9 \<and> CHR ''X'' \<notin> set ''HELLO WORLD''
   \<and> (\<exists>ct. encrypt ''HELLO WORLD'' ''312'' False = Inr ct
             \<and> decrypt ct ''312'' = Inr ''HELLOWORLD'')"
proof -
  have v: "validate_key ''312''" by code_simp
  have l: "length ''312'' \<le> 9" by simp
  have x: "CHR ''X'' \<notin> set ''HELLO WORLD''" by simp
  from round_trip_no_spaces_kept[OF v l x] v l x show ?thesis by simp
qed

text \<open>
  The claim as stated fails on a plaintext with a space: the space is removed before the
  transposition and does not come back.
\<close>

theorem round_trip_space_counterexample:
  "validate_key ''12'' \<and> CHR ''X'' \<notin> set ''A B''
   \<and> encrypt ''A B'' ''12'' False = Inr ''AB'' \<and> decrypt ''AB'' ''12'' = Inr ''AB''
   \<and> ''AB'' \<noteq> ''A B''"
  by code_simp

section \<open>Keywords of ten letters or more\<close>

text \<open>
  Claim C3 at the keyword \<open>ABCDEFGHIJ\<close>, which \<^const>\<open>validate_key\<close> accepts: the ranks
  1 to 10 are written one after the other, so normalisation returns the eleven-character string
  \<open>12345678910\<close>, and normalising that string raises: it is no valid key.
\<close>

theorem normalize_key_long_keyword:
  "validate_key ''ABCDEFGHIJ'' \<and> normalize_key ''ABCDEFGHIJ'' = Inr ''12345678910''
   \<and> normalize_key ''12345678910'' = Inl InvalidKey"
  by code_simp

text \<open>
  Claim C10 at the same keyword: the column loop runs for the column numbers 1 to 11 whatever the
  text, and \<^verbatim>\<open>numeric_key.index("11")\<close> raises, also on the empty text.
\<close>

theorem encrypt_empty_long_keyword:
  "validate_key ''ABCDEFGHIJ''
   \<and> encrypt [] ''ABCDEFGHIJ'' False = Inl SubstringNotFound
   \<and> encrypt [] ''ABCDEFGHIJ'' True = Inl SubstringNotFound
   \<and> decrypt [] ''ABCDEFGHIJ'' = Inl SubstringNotFound"
  by code_simp

text \<open>
  For keys of at most nine characters both properties hold: normalisation is idempotent, and
  the empty text is encrypted and decrypted to the empty text.
\<close>

theorem normalize_key_idempotent_short:
  assumes "validate_key k" "length k \<le> 9"
  shows "\<exists>nk. normalize_key k = Inr nk \<and> normalize_key nk = Inr nk"
proof -
  from normalize_key_ok[OF assms] obtain nk where nk: "normalize_key k = Inr nk" "numeric_ok nk"
    by blast
  from numeric_ok_valid[OF nk(2)] have "normalize_key nk = Inr nk" by (simp add: normalize_key_def)
  with nk show ?thesis by blast
qed

lemma ceil_div_0: "ceil_div 0 n = 0"
  by (cases n) (simp_all add: ceil_div_def)

theorem empty_text_short_key:
  assumes v: "validate_key k" and n9: "length k \<le> 9"
  shows "encrypt [] k b = Inr [] \<and> decrypt [] k = Inr []"
proof -
  from normalize_key_ok[OF v n9] obtain nk where nk: "normalize_key k = Inr nk" and ok: "numeric_ok nk"
    by blast
  let ?n = "length nk"
  have n0: "?n \<noteq> 0" using ok by (simp add: numeric_ok_def)
  have look: "\<forall>c\<in>set [1..<Suc ?n]. index_str nk (str_nat c) \<noteq> None"
    unfolding set_upt_1_Suc using numeric_ok_lookup[OF ok] by fastforce
  have "read_columns nk [] [1..<Suc ?n] [] = Inr []"
    using read_columns_ok[OF look, where m = "[]" and acc = "[]"] by (simp del: upt_Suc)
  then have e: "encrypt [] k b = Inr []"
    using nk n0 by (simp add: encrypt_def Let_def ceil_div_0 build_matrix_def del: upt_Suc)
  have id: "fill_column [] j 0 st = st" for j st by (simp add: fill_column_def)
  have "fold (\<lambda>j. fill_column [] j 0) js st = st" for js :: "nat list" and st
    by (induction js) (simp_all add: id)
  then have "fill_columns nk [] 0 [1..<Suc ?n] ([], 0) = Inr ([], 0)"
    using fill_columns_ok[OF look, where ct = "[]" and r = 0 and st = "([], 0)"]
    by (simp del: upt_Suc)
  then have "decrypt [] k = Inr []"
    using nk n0 by (simp add: decrypt_def Let_def ceil_div_0 rstrip_def del: upt_Suc)
  with e show ?thesis by simp
qed

theorem normalize_key_idempotent_short_witness:
  "validate_key ''SECRET'' \<and> length ''SECRET'' \<le> 9
   \<and> (\<exists>nk. normalize_key ''SECRET'' = Inr nk \<and> normalize_key nk = Inr nk)"
proof -
  have v: "validate_key ''SECRET''" by code_simp
  have l: "length ''SECRET'' \<le> 9" by simp
  from normalize_key_idempotent_short[OF v l] v l show ?thesis by simp
qed

theorem empty_text_short_key_witness:
  "validate_key ''SECRET'' \<and> length ''SECRET'' \<le> 9
   \<and> encrypt [] ''SECRET'' True = Inr [] \<and> decrypt [] ''SECRET'' = Inr []"
proof -
  have v: "validate_key ''SECRET''" by code_simp
  have l: "length ''SECRET'' \<le> 9" by simp
  from empty_text_short_key[OF v l, of True] v l show ?thesis by simp
qed

section \<open>The dictionary\<close>







section \<open>The scoring functions return a value\<close>

lemma english_freq_letters:
  "\<forall>letter\<in>set ''ABCDEFGHIJKLMNOPQRSTUVWXYZ''. map_of ENGLISH_FREQ letter \<noteq> None"
proof -
  have "map fst ENGLISH_FREQ = ''ABCDEFGHIJKLMNOPQRSTUVWXYZ''"
    by (simp add: ENGLISH_FREQ_def)
  then have "fst ` set ENGLISH_FREQ = set ''ABCDEFGHIJKLMNOPQRSTUVWXYZ''"
    by (metis set_map)
  then show ?thesis unfolding map_of_eq_None_iff by blast
qed

lemma chi_loop_total:
  "\<forall>letter\<in>set letters. map_of ENGLISH_FREQ letter \<noteq> None \<Longrightarrow>
   \<exists>c. chi_loop lt letters n chi_sq = Inr c"
proof (induction letters arbitrary: chi_sq)
  case Nil
  then show ?case by simp
next
  case (Cons l ls)
  then obtain f where f: "map_of ENGLISH_FREQ l = Some f" by auto
  have ih: "\<exists>c. chi_loop lt ls n x = Inr c" for x using Cons by simp
  show ?case using f ih by (simp add: Let_def py_div_def)
qed

lemma chi_squared_total: "\<exists>c. chi_squared text = Inr c"
proof -
  obtain c where
    "chi_loop (filter is_alpha_char (upper text)) ''ABCDEFGHIJKLMNOPQRSTUVWXYZ''
       (length (filter is_alpha_char (upper text))) 0 = Inr c"
    using chi_loop_total[OF english_freq_letters] by blast
  then show ?thesis by (simp add: chi_squared_def Let_def)
qed

lemma score_letter_frequency_total: "\<exists>f. score_letter_frequency text = Inr f"
proof -
  obtain c where "chi_squared text = Inr c" using chi_squared_total by blast
  then show ?thesis by (cases c) (simp_all add: score_letter_frequency_def)
qed

lemma score_ngrams_total: "\<exists>g. score_ngrams n table text = Inr g"
  by (simp add: score_ngrams_def Let_def py_div_def split: prod.splits)

lemma score_text_total: "\<exists>s. score_text text = Inr s"
proof -
  obtain f b t q where
    "score_letter_frequency text = Inr f" "score_bigrams text = Inr b"
    "score_trigrams text = Inr t" "score_quadgrams text = Inr q"
    using score_letter_frequency_total score_ngrams_total
    unfolding score_bigrams_def score_trigrams_def score_quadgrams_def by metis
  then show ?thesis by (simp add: score_text_def Let_def)
qed

text \<open>
  Claim C7. On every text (the empty one included) and every dictionary score,
  \<^const>\<open>score_text\<close> and \<^const>\<open>score_with_dictionary\<close> return a value and raise nothing;
  the value of the latter is \<open>min (score_text text * (1 + dict_score * 0.5)) 150\<close>, hence at
  most 150. The model is a function of its arguments alone, over the reals.
\<close>

theorem score_with_dictionary_capped:
  "(\<exists>s r. score_text text = Inr s \<and> score_with_dictionary text dict_score = Inr r
          \<and> r = min (s * (1 + dict_score * 0.5)) 150 \<and> r \<le> 150)
   \<and> score_with_dictionary [] dict_score = Inr 0"
proof
  obtain s where s: "score_text text = Inr s" using score_text_total by blast
  then have "score_with_dictionary text dict_score = Inr (min (s * (1 + dict_score * 0.5)) 150)"
    by (simp add: score_with_dictionary_def Let_def)
  with s show "\<exists>s r. score_text text = Inr s \<and> score_with_dictionary text dict_score = Inr r
          \<and> r = min (s * (1 + dict_score * 0.5)) 150 \<and> r \<le> 150" by simp
next
  show "score_with_dictionary [] dict_score = Inr 0"
    by (simp add: score_with_dictionary_def score_text_def)
qed

section \<open>Brute force: the enumeration of the keys and the final sort\<close>

lemma sorted_wrt_concat_map:
  "\<forall>x\<in>set xs. sorted_wrt R (F x) \<Longrightarrow>
   sorted_wrt (\<lambda>x y. \<forall>a\<in>set (F x). \<forall>b\<in>set (F y). R a b) xs \<Longrightarrow>
   sorted_wrt R (concat (map F xs))"
  by (induction xs) (auto simp: sorted_wrt_append)

lemma permutations_Nil: "permutations [] = [[]]"
  by (simp add: permutations.simps)

lemma permutations_nonempty:
  "xs \<noteq> [] \<Longrightarrow> permutations xs =
     concat (map (\<lambda>i. map ((#) (xs ! i)) (permutations (take i xs @ drop (Suc i) xs)))
                 [0..<length xs])"
  by (subst permutations.simps) simp

lemma mset_remove_nth:
  "i < length xs \<Longrightarrow> mset (take i xs @ drop (Suc i) xs) = mset xs - {#xs ! i#}"
proof -
  assume i: "i < length xs"
  have "xs = take i xs @ xs ! i # drop (Suc i) xs" using i by (rule id_take_nth_drop)
  then have "mset xs = mset (take i xs @ drop (Suc i) xs) + {#xs ! i#}"
    by (metis mset.simps(2) mset_append union_mset_add_mset_right add.right_neutral add_mset_add_single)
  then show ?thesis by simp
qed

lemma set_permutations: "set (permutations xs) = {ys. mset ys = mset xs}"
proof (induction xs rule: permutations.induct)
  case (1 xs)
  show ?case
  proof (cases "xs = []")
    case True
    then show ?thesis by (auto simp: permutations_Nil)
  next
    case False
    have ih: "set (permutations (take i xs @ drop (Suc i) xs)) = {ys. mset ys = mset xs - {#xs ! i#}}"
      if "i < length xs" for i
      using 1[OF False, of i] that mset_remove_nth[of i xs] by simp
    show ?thesis
    proof (rule set_eqI)
      fix ys
      show "ys \<in> set (permutations xs) \<longleftrightarrow> ys \<in> {ys. mset ys = mset xs}"
      proof
        assume "ys \<in> set (permutations xs)"
        then obtain i zs where i: "i < length xs" and zs: "zs \<in> set (permutations (take i xs @ drop (Suc i) xs))"
          and ys: "ys = xs ! i # zs"
          unfolding permutations_nonempty[OF False] by auto
        from zs ih[OF i] have "mset zs = mset xs - {#xs ! i#}" by simp
        moreover have "xs ! i \<in># mset xs" using i by simp
        ultimately show "ys \<in> {ys. mset ys = mset xs}" using ys by simp
      next
        assume "ys \<in> {ys. mset ys = mset xs}"
        then have m: "mset ys = mset xs" by simp
        with False obtain y zs where ys: "ys = y # zs" by (cases ys) auto
        with m have "y \<in> set xs" by (metis list.set_intros(1) mset_eq_setD)
        then obtain i where i: "i < length xs" "xs ! i = y" by (metis in_set_conv_nth)
        from m ys i have "mset zs = mset xs - {#xs ! i#}" by (metis add_mset_remove_trivial mset.simps(2))
        with ih[OF i(1)] have "zs \<in> set (permutations (take i xs @ drop (Suc i) xs))" by simp
        with i ys show "ys \<in> set (permutations xs)"
          unfolding permutations_nonempty[OF False] by auto
      qed
    qed
  qed
qed

lemma permutations_map: "permutations (map f xs) = map (map f) (permutations xs)"
proof (induction xs rule: permutations.induct)
  case (1 xs)
  show ?case
  proof (cases "xs = []")
    case True
    then show ?thesis by (simp add: permutations_Nil)
  next
    case False
    have ih: "permutations (map f (take i xs @ drop (Suc i) xs))
              = map (map f) (permutations (take i xs @ drop (Suc i) xs))"
      if "i < length xs" for i using 1[OF False, of i] that by simp
    have "permutations (map f xs) =
          concat (map (\<lambda>i. map ((#) (map f xs ! i))
                         (permutations (take i (map f xs) @ drop (Suc i) (map f xs))))
                      [0..<length xs])"
      using False by (subst permutations_nonempty) simp_all
    also have "\<dots> = concat (map (\<lambda>i. map (map f) (map ((#) (xs ! i))
                         (permutations (take i xs @ drop (Suc i) xs)))) [0..<length xs])"
      using ih by (intro arg_cong[where f = concat] map_cong refl)
                  (simp add: take_map drop_map comp_def flip: map_append)
    also have "\<dots> = map (map f) (permutations xs)"
      unfolding permutations_nonempty[OF False] by (simp add: map_concat comp_def)
    finally show ?thesis .
  qed
qed

lemma sorted_remove_nth:
  "sorted_wrt R xs \<Longrightarrow> sorted_wrt R (take i xs @ drop (Suc i) xs)"
proof -
  assume s: "sorted_wrt R xs"
  have "sorted_wrt R (take i xs @ drop i xs)" using s by simp
  then have cross: "\<forall>x\<in>set (take i xs). \<forall>y\<in>set (drop i xs). R x y"
    unfolding sorted_wrt_append by simp
  have "set (drop (Suc i) xs) \<subseteq> set (drop i xs)"
    by (rule set_drop_subset_set_drop) simp
  with cross s show ?thesis
    by (auto simp: sorted_wrt_append sorted_wrt_take sorted_wrt_drop)
qed

lemma lex_less_Cons_same: "sorted_wrt lex_less ps \<Longrightarrow> sorted_wrt lex_less (map ((#) a) ps)"
  by (simp add: sorted_wrt_map)

lemma sorted_permutations:
  fixes xs :: "('a::linorder) list"
  shows "sorted_wrt (<) xs \<Longrightarrow> sorted_wrt lex_less (permutations xs)"
proof (induction xs rule: permutations.induct)
  case (1 xs)
  show ?case
  proof (cases "xs = []")
    case True
    then show ?thesis by (simp add: permutations_Nil)
  next
    case False
    have blocks: "\<forall>i\<in>set [0..<length xs].
        sorted_wrt lex_less (map ((#) (xs ! i)) (permutations (take i xs @ drop (Suc i) xs)))"
    proof
      fix i assume i: "i \<in> set [0..<length xs]"
      have "sorted_wrt (<) (take i xs @ drop (Suc i) xs)"
        using "1.prems" by (rule sorted_remove_nth)
      from 1(1)[OF False i this] show
        "sorted_wrt lex_less (map ((#) (xs ! i)) (permutations (take i xs @ drop (Suc i) xs)))"
        by (rule lex_less_Cons_same)
    qed
    have cross: "sorted_wrt (\<lambda>i j.
        \<forall>a\<in>set (map ((#) (xs ! i)) (permutations (take i xs @ drop (Suc i) xs))).
        \<forall>b\<in>set (map ((#) (xs ! j)) (permutations (take j xs @ drop (Suc j) xs))).
          lex_less a b) [0..<length xs]"
    proof -
      have "xs ! i < xs ! j" if "i < j" "j < length xs" for i j
        using "1.prems" that by (simp add: sorted_wrt_iff_nth_less)
      then show ?thesis by (auto simp: sorted_wrt_iff_nth_less)
    qed
    show ?thesis
      unfolding permutations_nonempty[OF False]
      by (rule sorted_wrt_concat_map[OF blocks cross])
  qed
qed

lemma lex_less_map:
  "lex_less xs ys \<Longrightarrow> set xs \<subseteq> A \<Longrightarrow> set ys \<subseteq> A \<Longrightarrow>
   (\<And>a b. a \<in> A \<Longrightarrow> b \<in> A \<Longrightarrow> a < b \<Longrightarrow> f a < f b) \<Longrightarrow>
   lex_less (map f xs) (map f ys)"
  by (induction xs ys rule: lex_less.induct) auto

lemma digit_char_mono: "a < b \<Longrightarrow> b \<le> 9 \<Longrightarrow> digit_char a < digit_char b"
  by (simp add: digit_char_def less_char_def)

lemma concat_str_nat_small:
  "\<forall>d\<in>set ds. d < 10 \<Longrightarrow> concat (map str_nat ds) = map digit_char ds"
  by (induction ds) (simp_all add: str_nat_small)

lemma permutations_upt_elems:
  "ys \<in> set (permutations [1..<Suc n]) \<Longrightarrow> set ys = {1..n} \<and> length ys = n \<and> distinct ys"
proof -
  assume "ys \<in> set (permutations [1..<Suc n])"
  then have m: "mset ys = mset [1..<Suc n]" by (simp add: set_permutations)
  then have "set ys = set [1..<Suc n]" by (rule mset_eq_setD)
  moreover have "length ys = length [1..<Suc n]" using m by (rule mset_eq_length)
  moreover have "distinct ys" using m by (metis distinct_upt mset_eq_imp_distinct_iff)
  ultimately show ?thesis unfolding set_upt_1_Suc by simp
qed

lemma key_perms_digits:
  assumes "n \<le> 9"
  shows "key_perms n = map (map digit_char) (permutations [1..<Suc n])"
proof -
  have "key_perms n = map (\<lambda>ys. concat (map str_nat ys)) (permutations [1..<Suc n])"
    by (simp add: key_perms_def permutations_map comp_def del: upt_Suc)
  also have "\<dots> = map (map digit_char) (permutations [1..<Suc n])"
  proof (rule map_cong[OF refl])
    fix ys assume "ys \<in> set (permutations [1..<Suc n])"
    then have "set ys = {1..n}" using permutations_upt_elems by blast
    with assms have "\<forall>d\<in>set ys. d < 10" by auto
    then show "concat (map str_nat ys) = map digit_char ys" by (rule concat_str_nat_small)
  qed
  finally show ?thesis .
qed

lemma key_perms_sorted:
  assumes "n \<le> 9"
  shows "sorted_wrt lex_less (key_perms n)"
proof -
  have s: "sorted_wrt lex_less (permutations [1..<Suc n])"
    by (rule sorted_permutations) (simp add: sorted_wrt_iff_nth_less del: upt_Suc)
  have "sorted_wrt (\<lambda>xs ys. lex_less (map digit_char xs) (map digit_char ys))
          (permutations [1..<Suc n])"
  proof (rule sorted_wrt_mono_rel[OF _ s])
    fix xs ys
    assume xs: "xs \<in> set (permutations [1..<Suc n])" and ys: "ys \<in> set (permutations [1..<Suc n])"
      and l: "lex_less xs ys"
    have "set xs \<subseteq> {1..n}" "set ys \<subseteq> {1..n}"
      using permutations_upt_elems[OF xs] permutations_upt_elems[OF ys] by simp_all
    with l show "lex_less (map digit_char xs) (map digit_char ys)"
      by (rule lex_less_map) (use assms in \<open>auto intro: digit_char_mono\<close>)
  qed
  then show ?thesis unfolding key_perms_digits[OF assms] by (simp add: sorted_wrt_map)
qed

lemma key_perms_set:
  assumes "n \<le> 9"
  shows "set (key_perms n) = {k. is_permutation_key k \<and> length k = n}"
proof (rule set_eqI)
  fix k
  show "k \<in> set (key_perms n) \<longleftrightarrow> k \<in> {k. is_permutation_key k \<and> length k = n}"
  proof
    assume "k \<in> set (key_perms n)"
    then obtain ys where ys: "ys \<in> set (permutations [1..<Suc n])" "k = map digit_char ys"
      unfolding key_perms_digits[OF assms] by auto
    from permutations_upt_elems[OF ys(1)] have e: "set ys = {1..n}" "length ys = n" by simp_all
    have "list_all is_digit_char k"
      unfolding ys(2) list_all_iff using e(1) assms by (auto intro!: is_digit_digit_char)
    moreover have "digit_value ` set k = {1..n}"
    proof -
      have "digit_value ` digit_char ` {1..n} = (\<lambda>d. d) ` {1..n}"
        unfolding image_image using assms by (intro image_cong) (auto simp: digit_value_char)
      then show ?thesis unfolding ys(2) using e(1) by simp
    qed
    ultimately show "k \<in> {k. is_permutation_key k \<and> length k = n}"
      using e(2) ys(2) by (simp add: is_permutation_key_def)
  next
    assume "k \<in> {k. is_permutation_key k \<and> length k = n}"
    then have dig: "list_all is_digit_char k" and dv: "digit_value ` set k = {1..n}" and len: "length k = n"
      by (simp_all add: is_permutation_key_def)
    let ?ys = "map digit_value k"
    have dc: "map digit_char ?ys = k"
      using dig by (induction k) (simp_all add: digit_char_value)
    have "card (set ?ys) = length ?ys" using dv len by simp
    then have "distinct ?ys" by (rule card_distinct)
    moreover have "set ?ys = set [1..<Suc n]" unfolding set_upt_1_Suc using dv by simp
    ultimately have "mset ?ys = mset [1..<Suc n]"
      by (metis distinct_upt set_eq_iff_mset_eq_distinct)
    then have "?ys \<in> set (permutations [1..<Suc n])" by (simp add: set_permutations)
    then have "map digit_char ?ys \<in> set (key_perms n)"
      unfolding key_perms_digits[OF assms] set_map by (rule imageI)
    with dc show "k \<in> set (key_perms n)" by simp
  qed
qed

lemma permutation_key_valid:
  assumes p: "is_permutation_key k" and ne: "k \<noteq> []"
  shows "validate_key k" and "length k \<le> 9"
proof -
  from p have dig: "list_all is_digit_char k" and dv: "digit_value ` set k = {1..length k}"
    by (simp_all add: is_permutation_key_def)
  from validate_key_iff_aux[OF ne dig] dv
  have eq: "(\<lambda>c. [c]) ` set k = str_nat ` set [1..<Suc (length k)]" by simp
  with ne dig show "validate_key k" by (simp add: validate_key_def isdigit_def)
  from eq show "length k \<le> 9" by (rule validate_key_numeric_len)
qed

lemma decrypt_total:
  assumes v: "validate_key k" and n9: "length k \<le> 9"
  shows "\<exists>p. decrypt ct k = Inr p"
proof -
  from normalize_key_ok[OF v n9] obtain nk where nk: "normalize_key k = Inr nk" and ok: "numeric_ok nk"
    by blast
  have n0: "length nk \<noteq> 0" using ok by (simp add: numeric_ok_def)
  have look: "\<forall>c\<in>set [1..<Suc (length nk)]. index_str nk (str_nat c) \<noteq> None"
    unfolding set_upt_1_Suc using numeric_ok_lookup[OF ok] by fastforce
  obtain st where "fill_columns nk ct (ceil_div (length ct) (length nk)) [1..<Suc (length nk)]
      (replicate (ceil_div (length ct) (length nk)) (replicate (length nk) []), 0) = Inr st"
    using fill_columns_ok[OF look] by blast
  with nk n0 show ?thesis
    by (cases st) (simp add: decrypt_def Let_def del: upt_Suc)
qed

lemma evaluate_plaintext_total: "\<exists>s. evaluate_plaintext p = Inr s"
proof -
  obtain b where b: "score_text p = Inr b" using score_text_total by blast
  then show ?thesis
    by (simp add: evaluate_plaintext_def score_with_dictionary_def Let_def)
qed

lemma insort_key_ranked:
  fixes f :: "'a \<Rightarrow> 'b::linorder"
  assumes "sorted_wrt (\<lambda>a b. f a < f b \<or> (f a = f b \<and> R a b)) ys" "\<forall>y\<in>set ys. R x y"
  shows "sorted_wrt (\<lambda>a b. f a < f b \<or> (f a = f b \<and> R a b)) (insort_key f x ys)"
  using assms
proof (induction ys)
  case Nil
  then show ?case by simp
next
  case (Cons y ys)
  show ?case
  proof (cases "f x \<le> f y")
    case True
    have "f x < f z \<or> (f x = f z \<and> R x z)" if "z \<in> set (y # ys)" for z
    proof -
      have "f y \<le> f z" using Cons.prems(1) that by auto
      with True have "f x \<le> f z" by simp
      moreover have "R x z" using Cons.prems(2) that by auto
      ultimately show ?thesis by auto
    qed
    with True Cons.prems(1) show ?thesis by simp
  next
    case False
    then have "f y < f x" by simp
    moreover have "sorted_wrt (\<lambda>a b. f a < f b \<or> (f a = f b \<and> R a b)) (insort_key f x ys)"
      using Cons by simp
    ultimately show ?thesis using False Cons.prems(1) by (auto simp: set_insort_key)
  qed
qed

lemma sort_key_ranked:
  fixes f :: "'a \<Rightarrow> 'b::linorder"
  shows "sorted_wrt R xs \<Longrightarrow> sorted_wrt (\<lambda>a b. f a < f b \<or> (f a = f b \<and> R a b)) (sort_key f xs)"
proof (induction xs)
  case Nil
  then show ?case by simp
next
  case (Cons x xs)
  have "sorted_wrt (\<lambda>a b. f a < f b \<or> (f a = f b \<and> R a b)) (sort_key f xs)"
    using Cons by simp
  moreover have "\<forall>y\<in>set (sort_key f xs). R x y" using Cons.prems by simp
  ultimately show ?case by (simp add: sort_key_simps insort_key_ranked)
qed

lemma try_key_mem:
  "a \<in> set (try_key scorer ct k) \<longleftrightarrow>
     fst a = k \<and> decrypt ct k = Inr (fst (snd a)) \<and> scorer (fst (snd a)) = Inr (snd (snd a))"
  by (cases a) (auto simp: try_key_def split: sum.splits)

lemma candidates_mem:
  assumes "max_key_length \<le> 9"
  shows "a \<in> set (candidates scorer ct max_key_length) \<longleftrightarrow>
           fst a \<noteq> [] \<and> length (fst a) \<le> max_key_length \<and> is_permutation_key (fst a)
           \<and> decrypt ct (fst a) = Inr (fst (snd a))
           \<and> scorer (fst (snd a)) = Inr (snd (snd a))"
proof
  assume "a \<in> set (candidates scorer ct max_key_length)"
  then obtain n k where n: "1 \<le> n" "n \<le> max_key_length" and k: "k \<in> set (key_perms n)"
    and a: "a \<in> set (try_key scorer ct k)"
    unfolding candidates_def by (auto simp del: upt_Suc)
  from k n assms have "is_permutation_key k" "length k = n" by (simp_all add: key_perms_set)
  with a n show "fst a \<noteq> [] \<and> length (fst a) \<le> max_key_length \<and> is_permutation_key (fst a)
           \<and> decrypt ct (fst a) = Inr (fst (snd a))
           \<and> scorer (fst (snd a)) = Inr (snd (snd a))"
    by (auto simp: try_key_mem)
next
  assume r: "fst a \<noteq> [] \<and> length (fst a) \<le> max_key_length \<and> is_permutation_key (fst a)
           \<and> decrypt ct (fst a) = Inr (fst (snd a))
           \<and> scorer (fst (snd a)) = Inr (snd (snd a))"
  let ?n = "length (fst a)"
  have n: "?n \<in> set [1..<Suc max_key_length]" using r by (cases "fst a") auto
  have "fst a \<in> set (key_perms ?n)" using r assms by (simp add: key_perms_set)
  moreover have "a \<in> set (try_key scorer ct (fst a))" using r by (simp add: try_key_mem)
  ultimately show "a \<in> set (candidates scorer ct max_key_length)"
    unfolding candidates_def using n by (auto simp del: upt_Suc)
qed

lemma candidates_sorted:
  assumes "max_key_length \<le> 9"
  shows "sorted_wrt (\<lambda>a b. key_before (fst a) (fst b)) (candidates scorer ct max_key_length)"
  unfolding candidates_def
proof (rule sorted_wrt_concat_map)
  show "\<forall>n\<in>set [1..<Suc max_key_length].
          sorted_wrt (\<lambda>a b. key_before (fst a) (fst b)) (concat (map (try_key scorer ct) (key_perms n)))"
  proof
    fix n assume "n \<in> set [1..<Suc max_key_length]"
    then have "n \<in> {1..max_key_length}" unfolding set_upt_1_Suc .
    with assms have n9: "n \<le> 9" by simp
    show "sorted_wrt (\<lambda>a b. key_before (fst a) (fst b)) (concat (map (try_key scorer ct) (key_perms n)))"
    proof (rule sorted_wrt_concat_map)
      show "\<forall>k\<in>set (key_perms n). sorted_wrt (\<lambda>a b. key_before (fst a) (fst b)) (try_key scorer ct k)"
        by (auto simp: try_key_def split: sum.splits)
      show "sorted_wrt (\<lambda>k1 k2. \<forall>a\<in>set (try_key scorer ct k1). \<forall>b\<in>set (try_key scorer ct k2).
                key_before (fst a) (fst b)) (key_perms n)"
      proof (rule sorted_wrt_mono_rel[OF _ key_perms_sorted[OF n9]])
        fix k1 k2 assume "k1 \<in> set (key_perms n)" "k2 \<in> set (key_perms n)" "lex_less k1 k2"
        then have "key_before k1 k2" using n9 by (simp add: key_perms_set key_before_def)
        then show "\<forall>a\<in>set (try_key scorer ct k1). \<forall>b\<in>set (try_key scorer ct k2). key_before (fst a) (fst b)"
          by (simp add: try_key_mem)
      qed
    qed
  qed
  show "sorted_wrt (\<lambda>n1 n2.
          \<forall>a\<in>set (concat (map (try_key scorer ct) (key_perms n1))).
          \<forall>b\<in>set (concat (map (try_key scorer ct) (key_perms n2))). key_before (fst a) (fst b))
        [1..<Suc max_key_length]"
  proof -
    have kb: "key_before (fst a) (fst b)"
      if "n1 < n2" "n2 \<le> max_key_length"
        "a \<in> set (concat (map (try_key scorer ct) (key_perms n1)))"
        "b \<in> set (concat (map (try_key scorer ct) (key_perms n2)))" for n1 n2 a b
    proof -
      from that assms have "n1 \<le> 9" "n2 \<le> 9" by simp_all
      with that(3,4) have "length (fst a) = n1" "length (fst b) = n2"
        by (auto simp: key_perms_set try_key_mem)
      with that(1) show ?thesis by (simp add: key_before_def)
    qed
    show ?thesis
    proof (rule sorted_wrt_mono_rel[OF _ sorted_wrt_upt])
      fix n1 n2 assume "n1 \<in> set [1..<Suc max_key_length]" "n2 \<in> set [1..<Suc max_key_length]"
        and lt: "n1 < n2"
      then have "n2 \<le> max_key_length" unfolding set_upt_1_Suc by simp
      with lt show "\<forall>a\<in>set (concat (map (try_key scorer ct) (key_perms n1))).
          \<forall>b\<in>set (concat (map (try_key scorer ct) (key_perms n2))). key_before (fst a) (fst b)"
        using kb by blast
    qed
  qed
qed

lemma map_fst_concat_single:
  "\<forall>k\<in>set ks. \<exists>p s. f k = [(k, p, s)] \<Longrightarrow> map fst (concat (map f ks)) = ks"
proof (induction ks)
  case Nil
  show ?case by simp
next
  case (Cons k ks)
  then obtain p s where "f k = [(k, p, s)]" by auto
  moreover have "map fst (concat (map f ks)) = ks" using Cons by simp
  ultimately show ?case by simp
qed

lemma sort_key_constant:
  assumes "\<forall>x\<in>set xs. f x = c"
  shows "sort_key f xs = xs"
  using assms
proof (induction xs)
  case Nil
  show ?case by simp
next
  case (Cons x xs)
  then have "sort_key f xs = xs" by simp
  moreover have "insort_key f x xs = x # xs"
    using Cons.prems by (cases xs) simp_all
  ultimately show ?case by (simp add: sort_key_simps)
qed

lemma concat_map_concat:
  "concat (map (\<lambda>n. concat (map f (g n))) ns) = concat (map f (concat (map g ns)))"
  by (induction ns) simp_all

lemma key_perms_upto_3:
  "concat (map key_perms [1..<Suc 3])
   = [''1'', ''12'', ''21'', ''123'', ''132'', ''213'', ''231'', ''312'', ''321'']"
  by code_simp

lemma decrypt_A_upto_3:
  "list_all (\<lambda>key. decrypt ''A'' key = Inr ''A'')
     [''1'', ''12'', ''21'', ''123'', ''132'', ''213'', ''231'', ''312'', ''321'']"
  by code_simp

lemma brute_force_attack_A:
  "brute_force_attack (\<lambda>plaintext. Inr score) ''A'' 3
   = map (\<lambda>key. (key, ''A'', score))
         [''1'', ''12'', ''21'', ''123'', ''132'', ''213'', ''231'', ''312'', ''321'']"
proof -
  let ?keys = "[''1'', ''12'', ''21'', ''123'', ''132'', ''213'', ''231'', ''312'', ''321'']"
  let ?scorer = "\<lambda>plaintext::string. (Inr score :: error + real)"
  have dec: "decrypt ''A'' k = Inr ''A''" if "k \<in> set ?keys" for k
    using decrypt_A_upto_3 that unfolding list_all_iff by blast
  have "concat (map (\<lambda>key_length. concat (map (try_key ?scorer ''A'') (key_perms key_length)))
                    [1..<Suc 3])
        = concat (map (try_key ?scorer ''A'') (concat (map key_perms [1..<Suc 3])))"
    by (rule concat_map_concat)
  also have "\<dots> = concat (map (try_key ?scorer ''A'') ?keys)"
    by (simp only: key_perms_upto_3)
  also have "\<dots> = concat (map (\<lambda>key. [(key, ''A'', score)]) ?keys)"
  proof -
    have "map (try_key ?scorer ''A'') ?keys = map (\<lambda>key. [(key, ''A'', score)]) ?keys"
      by (rule map_cong[OF refl]) (simp add: try_key_def dec)
    then show ?thesis by (rule arg_cong)
  qed
  also have "\<dots> = map (\<lambda>key. (key, ''A'', score)) ?keys"
    by simp
  finally have results:
    "concat (map (\<lambda>key_length. concat (map (try_key ?scorer ''A'') (key_perms key_length)))
                 [1..<Suc 3])
     = map (\<lambda>key. (key, ''A'', score)) ?keys" .
  have "sort_key (\<lambda>(key, plaintext, score). - score) (map (\<lambda>key. (key, ''A'', score)) ?keys)
        = map (\<lambda>key. (key, ''A'', score)) ?keys"
    by (rule sort_key_constant[where c = "- score"]) auto
  then show ?thesis
    by (simp only: brute_force_attack_def Let_def results)
qed

text \<open>
  Claim C5, amended. For \<open>max_key_length \<le> 9\<close> and whatever the scoring calls compute
  (\<open>scorer\<close>), the result of \<^const>\<open>brute_force_attack\<close> holds exactly the triples
  \<open>(key, plaintext, score)\<close> of the permutation keys of the lengths \<open>1..max_key_length\<close>
  with their decryption and the score computed for it, and it is sorted by descending
  computed score, entries of equal computed score by key length and, within one length,
  lexicographically.
\<close>

theorem brute_force_attack_ranked:
  assumes "max_key_length \<le> 9"
  shows "sorted_wrt ranked_before (brute_force_attack scorer ciphertext max_key_length)
       \<and> set (brute_force_attack scorer ciphertext max_key_length) =
           {(key, plaintext, score). key \<noteq> [] \<and> length key \<le> max_key_length
              \<and> is_permutation_key key \<and> decrypt ciphertext key = Inr plaintext
              \<and> scorer plaintext = Inr score}"
proof
  have b: "brute_force_attack scorer ciphertext max_key_length
           = sort_key (\<lambda>a. - snd (snd a)) (candidates scorer ciphertext max_key_length)"
    by (simp add: brute_force_attack_def candidates_def Let_def case_prod_unfold del: upt_Suc)
  have "sorted_wrt (\<lambda>a b. - snd (snd a) < - snd (snd b)
            \<or> (- snd (snd a) = - snd (snd b) \<and> key_before (fst a) (fst b)))
          (sort_key (\<lambda>a. - snd (snd a)) (candidates scorer ciphertext max_key_length))"
    by (rule sort_key_ranked[OF candidates_sorted[OF assms]])
  then show "sorted_wrt ranked_before (brute_force_attack scorer ciphertext max_key_length)"
    unfolding b by (rule sorted_wrt_mono_rel[rotated]) (auto simp: ranked_before_def)
  show "set (brute_force_attack scorer ciphertext max_key_length) =
           {(key, plaintext, score). key \<noteq> [] \<and> length key \<le> max_key_length
              \<and> is_permutation_key key \<and> decrypt ciphertext key = Inr plaintext
              \<and> scorer plaintext = Inr score}"
    unfolding b using candidates_mem[OF assms, of _ scorer ciphertext] by auto
qed

theorem brute_force_attack_ranked_witness:
  "(2::nat) \<le> 9 \<and> sorted_wrt ranked_before (brute_force_attack evaluate_plaintext ''A'' 2)
   \<and> set (brute_force_attack evaluate_plaintext ''A'' 2) =
           {(key, plaintext, score). key \<noteq> [] \<and> length key \<le> 2
              \<and> is_permutation_key key \<and> decrypt ''A'' key = Inr plaintext
              \<and> evaluate_plaintext plaintext = Inr score}"
  using brute_force_attack_ranked[of 2 evaluate_plaintext "''A''"] by simp

text \<open>
  The tie-break is not the lexicographic order of the key strings: on the ciphertext \<open>A\<close>
  every key decrypts to \<open>A\<close>, so that all scores are equal, whatever the score computed
  for \<open>A\<close> is, and the key \<open>21\<close> comes before the lexicographically smaller \<open>123\<close>.
\<close>

theorem brute_force_tie_counterexample:
  "\<forall>score. brute_force_attack (\<lambda>plaintext. Inr score) ''A'' 3 ! 2 = (''21'', ''A'', score)
      \<and> brute_force_attack (\<lambda>plaintext. Inr score) ''A'' 3 ! 3 = (''123'', ''A'', score)
      \<and> lex_less ''123'' ''21''"
proof -
  have "lex_less ''123'' ''21''" by code_simp
  then show ?thesis by (simp add: brute_force_attack_A)
qed

text \<open>
  When the scoring calls raise on no plaintext, no key is skipped: for
  \<open>max_key_length \<le> 9\<close> the keys of the result are, each once, the keys enumerated for
  the lengths \<open>1..max_key_length\<close>.
\<close>

theorem brute_force_attack_keys:
  assumes "max_key_length \<le> 9" and "\<forall>plaintext. \<exists>score. scorer plaintext = Inr score"
  shows "mset (map fst (brute_force_attack scorer ciphertext max_key_length))
         = mset (concat (map key_perms [1..<Suc max_key_length]))"
proof -
  let ?keys = "concat (map key_perms [1..<Suc max_key_length])"
  have one: "\<exists>p s. try_key scorer ciphertext k = [(k, p, s)]" if "k \<in> set ?keys" for k
  proof -
    from that obtain n where n: "n \<in> {1..max_key_length}" and k: "k \<in> set (key_perms n)"
      unfolding set_concat set_map set_upt_1_Suc by blast
    from n assms(1) have "n \<le> 9" by simp
    with k have pk: "is_permutation_key k" and len: "length k = n" by (simp_all add: key_perms_set)
    from len n have ne: "k \<noteq> []" by auto
    from permutation_key_valid[OF pk ne] obtain p where p: "decrypt ciphertext k = Inr p"
      using decrypt_total by blast
    from assms(2) obtain s where "scorer p = Inr s" by blast
    with p show ?thesis by (simp add: try_key_def)
  qed
  have "candidates scorer ciphertext max_key_length
        = concat (map (try_key scorer ciphertext) ?keys)"
    unfolding candidates_def by (rule concat_map_concat)
  moreover have "map fst (concat (map (try_key scorer ciphertext) ?keys)) = ?keys"
    by (rule map_fst_concat_single) (use one in blast)
  ultimately have c: "map fst (candidates scorer ciphertext max_key_length) = ?keys" by simp
  have b: "brute_force_attack scorer ciphertext max_key_length
           = sort_key (\<lambda>a. - snd (snd a)) (candidates scorer ciphertext max_key_length)"
    by (simp add: brute_force_attack_def candidates_def Let_def case_prod_unfold del: upt_Suc)
  have "mset (map fst (brute_force_attack scorer ciphertext max_key_length))
        = image_mset fst (mset (candidates scorer ciphertext max_key_length))"
    unfolding b by simp
  also have "\<dots> = mset (map fst (candidates scorer ciphertext max_key_length))" by simp
  finally show ?thesis unfolding c .
qed

theorem brute_force_attack_keys_witness:
  "(2::nat) \<le> 9 \<and> (\<forall>plaintext. \<exists>score. evaluate_plaintext plaintext = Inr score)
   \<and> mset (map fst (brute_force_attack evaluate_plaintext ''A'' 2))
       = mset (concat (map key_perms [1..<Suc 2]))"
  using brute_force_attack_keys[of 2 evaluate_plaintext "''A''"] evaluate_plaintext_total
  by simp

section \<open>Ciphertext analysis\<close>

lemma insort_key_cong_on:
  "f x = g x \<Longrightarrow> \<forall>y\<in>set ys. f y = g y \<Longrightarrow> insort_key f x ys = insort_key g x ys"
  by (induction ys) auto

lemma sort_key_cong_on:
  "\<forall>x\<in>set xs. f x = g x \<Longrightarrow> sort_key f xs = sort_key g xs"
proof (induction xs)
  case Nil
  then show ?case by simp
next
  case (Cons x xs)
  then have "sort_key f xs = sort_key g xs" by simp
  moreover have "insort_key f x (sort_key g xs) = insort_key g x (sort_key g xs)"
    using Cons.prems by (intro insort_key_cong_on) simp_all
  ultimately show ?case by (simp add: sort_key_simps)
qed

lemma ic_lookup_trial:
  "k \<in> set ks \<Longrightarrow> ic_lookup (map (\<lambda>key_len. (key_len, f key_len)) ks) k = f k"
proof -
  assume "k \<in> set ks"
  then have "map_of (map (\<lambda>key_len. (key_len, f key_len)) ks) k = Some (f k)"
    by (induction ks) auto
  then show ?thesis by (simp add: ic_lookup_def)
qed

lemma suggested_key_lengths_sort:
  "suggested_key_lengths (analyze_ciphertext fl ciphertext)
   = take 5 (sort_key (ic_distance fl ciphertext) (trial_lengths ciphertext))"
proof -
  let ?ks = "trial_lengths ciphertext"
  let ?scores = "map (\<lambda>key_len. (key_len, average_ic fl ciphertext key_len)) ?ks"
  have keys: "map fst ?scores = ?ks" by (simp add: comp_def)
  have "sort_key (\<lambda>k. \<bar>float_sub fl (ic_lookup ?scores k) (float_0_067 fl)\<bar>) ?ks
        = sort_key (ic_distance fl ciphertext) ?ks"
    by (rule sort_key_cong_on) (simp add: ic_lookup_trial ic_distance_def)
  then show ?thesis
    using keys by (simp add: analyze_ciphertext_def Let_def trial_lengths_def)
qed

lemma trial_lengths_ABCDEF: "trial_lengths ''ABCDEF'' = [2]"
  by code_simp

text \<open>
  Claim C8, amended. Whatever the rounding of the arithmetic (\<open>fl\<close>), the suggested key
  lengths are the first five (all of them when there are fewer) of the trial lengths
  \<open>2 \<le> L < min (length div 2) 15\<close> arranged by ascending distance, as computed, of their
  computed average index of coincidence from 0.067, equal computed distances by ascending
  length.
\<close>

theorem suggested_key_lengths_ranked:
  "\<exists>ranked. mset ranked = mset (trial_lengths ciphertext)
      \<and> sorted_wrt (closer fl ciphertext) ranked
      \<and> suggested_key_lengths (analyze_ciphertext fl ciphertext) = take 5 ranked"
proof -
  let ?ks = "trial_lengths ciphertext"
  let ?ranked = "sort_key (ic_distance fl ciphertext) ?ks"
  have s: "suggested_key_lengths (analyze_ciphertext fl ciphertext) = take 5 ?ranked"
    by (rule suggested_key_lengths_sort)
  have "sorted_wrt (<) ?ks" unfolding trial_lengths_def by (rule sorted_wrt_upt)
  then have "sorted_wrt (\<lambda>a b. ic_distance fl ciphertext a < ic_distance fl ciphertext b
                 \<or> (ic_distance fl ciphertext a = ic_distance fl ciphertext b \<and> a < b)) ?ranked"
    by (rule sort_key_ranked)
  then have r: "sorted_wrt (closer fl ciphertext) ?ranked"
    by (rule sorted_wrt_mono_rel[rotated]) (simp add: closer_def)
  have "mset ?ranked = mset ?ks" by simp
  with r s show ?thesis by blast
qed

text \<open>
  A ciphertext of six characters has one trial length only, so one suggestion, not five,
  whatever the rounding.
\<close>

theorem suggested_key_lengths_short_counterexample:
  "\<forall>fl. suggested_key_lengths (analyze_ciphertext fl ''ABCDEF'') = [2]
      \<and> length (suggested_key_lengths (analyze_ciphertext fl ''ABCDEF'')) \<noteq> 5"
  by (simp add: suggested_key_lengths_sort trial_lengths_ABCDEF)

text \<open>
  With the rounding of binary64 the order is not that of the exact indices: on the
  ciphertext \<open>AAAAAAAAABBB\<close> the average index of the lengths 3 and 4 is exactly
  \<open>1/2\<close>, but the one of length 4 is computed as \<open>1/2 - 1/2 ^ 54\<close>
  (\<^verbatim>\<open>0.49999999999999994\<close>), and length 4 is suggested before length 3.
\<close>

lemma trial_lengths_AAAAAAAAABBB: "trial_lengths ''AAAAAAAAABBB'' = [2, 3, 4, 5]"
  by code_simp

lemma average_ic_binary64_2:
  "average_ic binary64 ''AAAAAAAAABBB'' 2 = 2552039788843281 / 4503599627370496"
  by code_simp

lemma average_ic_binary64_3: "average_ic binary64 ''AAAAAAAAABBB'' 3 = 1 / 2"
  by code_simp

lemma average_ic_binary64_4:
  "average_ic binary64 ''AAAAAAAAABBB'' 4 = 9007199254740991 / 18014398509481984"
  by code_simp

lemma average_ic_binary64_5:
  "average_ic binary64 ''AAAAAAAAABBB'' 5 = 4803839602528529 / 9007199254740992"
  by code_simp

lemma ic_distance_binary64_2:
  "ic_distance binary64 ''AAAAAAAAABBB'' 2 = 9001194455237831 / 18014398509481984"
  unfolding ic_distance_def average_ic_binary64_2 by code_simp

lemma ic_distance_binary64_3:
  "ic_distance binary64 ''AAAAAAAAABBB'' 3 = 7800234554605699 / 18014398509481984"
  unfolding ic_distance_def average_ic_binary64_3 by code_simp

lemma ic_distance_binary64_4:
  "ic_distance binary64 ''AAAAAAAAABBB'' 4 = 3900117277302849 / 9007199254740992"
  unfolding ic_distance_def average_ic_binary64_4 by code_simp

lemma ic_distance_binary64_5:
  "ic_distance binary64 ''AAAAAAAAABBB'' 5 = 8400714504921765 / 18014398509481984"
  unfolding ic_distance_def average_ic_binary64_5 by code_simp

theorem suggested_key_lengths_binary64_example:
  "suggested_key_lengths (analyze_ciphertext binary64 ''AAAAAAAAABBB'') = [4, 3, 5, 2]
   \<and> average_ic binary64 ''AAAAAAAAABBB'' 3 = 1 / 2
   \<and> average_ic binary64 ''AAAAAAAAABBB'' 4 = 1 / 2 - 1 / 2 ^ 54"
proof -
  have "sort_key (ic_distance binary64 ''AAAAAAAAABBB'') [2, 3, 4, 5] = [4, 3, 5, 2]"
    by (simp add: ic_distance_binary64_2 ic_distance_binary64_3
          ic_distance_binary64_4 ic_distance_binary64_5)
  then have "suggested_key_lengths (analyze_ciphertext binary64 ''AAAAAAAAABBB'') = [4, 3, 5, 2]"
    by (simp add: suggested_key_lengths_sort trial_lengths_AAAAAAAAABBB)
  moreover have "average_ic binary64 ''AAAAAAAAABBB'' 4 = 1 / 2 - 1 / 2 ^ 54"
    unfolding average_ic_binary64_4 by simp
  ultimately show ?thesis using average_ic_binary64_3 by simp
qed

text \<open>
  The columns whose indices are averaged are the round-robin ones: column \<open>c\<close> holds,
  in order, the characters at the offsets \<open>i\<close> with \<open>i mod key_len = c\<close>.
\<close>

lemma zip_take_right: "length xs \<le> n \<Longrightarrow> zip xs (take n ys) = zip xs ys"
proof (induction xs arbitrary: n ys)
  case Nil
  then show ?case by simp
next
  case (Cons x xs)
  then obtain n' where "n = Suc n'" by (cases n) auto
  with Cons show ?case by (cases ys) auto
qed

lemma split_columns_prefix:
  assumes "0 < key_len" "k \<le> length ciphertext"
  shows "fold (\<lambda>(i, char) columns. columns[i mod key_len := columns ! (i mod key_len) @ [char]])
              (zip [0..<k] ciphertext) (replicate key_len [])
         = map (\<lambda>c. map ((!) ciphertext) (filter (\<lambda>i. i mod key_len = c) [0..<k])) [0..<key_len]"
  using assms(2)
proof (induction k)
  case 0
  then show ?case by (simp add: map_replicate_const)
next
  case (Suc k)
  let ?step = "\<lambda>(i, char) columns. columns[i mod key_len := columns ! (i mod key_len) @ [char]]"
  let ?cols = "\<lambda>k. map (\<lambda>c. map ((!) ciphertext) (filter (\<lambda>i. i mod key_len = c) [0..<k])) [0..<key_len]"
  from Suc.prems have k: "k < length ciphertext" by simp
  have z: "zip [0..<Suc k] ciphertext = zip [0..<k] ciphertext @ [(k, ciphertext ! k)]"
  proof -
    have "zip ([0..<k] @ [k]) ciphertext
          = zip [0..<k] (take k ciphertext) @ zip [k] (drop k ciphertext)"
      by (simp add: zip_append1)
    moreover have "zip [0..<k] (take k ciphertext) = zip [0..<k] ciphertext"
      by (rule zip_take_right) simp
    moreover have "drop k ciphertext = ciphertext ! k # drop (Suc k) ciphertext"
      using k by (simp add: Cons_nth_drop_Suc)
    ultimately show ?thesis by simp
  qed
  have m: "k mod key_len < key_len" using assms(1) by simp
  have "fold ?step (zip [0..<Suc k] ciphertext) (replicate key_len [])
        = (?cols k)[k mod key_len := ?cols k ! (k mod key_len) @ [ciphertext ! k]]"
    unfolding z fold_append comp_def using Suc.IH k by simp
  also have "\<dots> = ?cols (Suc k)"
    using m by (intro nth_equalityI) (auto simp: nth_list_update)
  finally show ?case .
qed

theorem split_columns_round_robin:
  "0 < key_len \<Longrightarrow>
   split_columns ciphertext key_len =
     map (\<lambda>c. map ((!) ciphertext) (filter (\<lambda>i. i mod key_len = c) [0..<length ciphertext]))
         [0..<key_len]"
  unfolding split_columns_def using split_columns_prefix[of key_len "length ciphertext" ciphertext]
  by simp

theorem split_columns_round_robin_witness:
  "(0::nat) < 3 \<and> split_columns ''ABCDEFGH'' 3 = [''ADG'', ''BEH'', ''CF'']"
proof -
  have "map (\<lambda>c. map ((!) ''ABCDEFGH'') (filter (\<lambda>i. i mod 3 = c) [0..<length ''ABCDEFGH'']))
            [0..<3] = [''ADG'', ''BEH'', ''CF'']"
    by code_simp
  then show ?thesis using split_columns_round_robin[of 3 "''ABCDEFGH''"] by simp
qed

section \<open>Hill climbing\<close>

lemma stuck_key0: "generate_random_key (stuck_shuffle_at 0) 3 = ''231''" by code_simp
lemma stuck_key1: "generate_random_key (stuck_shuffle_at (Suc 0)) 3 = ''123''" by code_simp
lemma decrypt_THE_231: "decrypt ''THE'' ''231'' = Inr ''HET''" by code_simp
lemma decrypt_THE_321: "decrypt ''THE'' ''321'' = Inr ''EHT''" by code_simp
lemma decrypt_THE_123: "decrypt ''THE'' ''123'' = Inr ''THE''" by code_simp
lemma stuck_swap: "swap_random_positions (stuck_sample_at i) ''231'' = Inr ''321''" by code_simp
lemma evaluate_HET: "evaluate_plaintext ''HET'' = Inr score_HET"
  unfolding score_HET_def by code_simp
lemma evaluate_EHT: "evaluate_plaintext ''EHT'' = Inr score_EHT"
  unfolding score_EHT_def by code_simp
lemma evaluate_THE: "evaluate_plaintext ''THE'' = Inr score_THE"
  unfolding score_THE_def by code_simp

lemma stuck_compare: "\<not> score_EHT > score_HET" "score_HET < score_THE"
  by (simp_all add: score_HET_def score_EHT_def score_THE_def)

lemma stuck_step:
  assumes "current_key st = ''231''" and "current_score st = score_HET"
    and "no_improvement_count st + 1 < 100"
  shows "hc_step stuck_shuffle_at stuck_sample_at ''THE'' 3 i st
         = Inr (st\<lparr>no_improvement_count := no_improvement_count st + 1\<rparr>)"
  using assms stuck_compare(1)
  by (simp add: hc_step_def stuck_swap decrypt_THE_321 evaluate_EHT Let_def max_no_improvement_def)

lemma stuck_iterate:
  assumes "current_key st = ''231''" and "current_score st = score_HET"
    and "no_improvement_count st + k < 100"
  shows "hc_iterate stuck_shuffle_at stuck_sample_at ''THE'' 3 [a..<a + k] st
         = Inr (st\<lparr>no_improvement_count := no_improvement_count st + k\<rparr>)"
  using assms
proof (induction k arbitrary: a st)
  case 0
  then show ?case by simp
next
  case (Suc k)
  let ?st = "st\<lparr>no_improvement_count := no_improvement_count st + 1\<rparr>"
  have u: "[a..<a + Suc k] = a # [Suc a..<Suc a + k]" by (simp add: upt_rec)
  have s: "hc_step stuck_shuffle_at stuck_sample_at ''THE'' 3 a st = Inr ?st"
    using Suc.prems by (intro stuck_step) simp_all
  have "hc_iterate stuck_shuffle_at stuck_sample_at ''THE'' 3 [Suc a..<Suc a + k] ?st
        = Inr (?st\<lparr>no_improvement_count := no_improvement_count ?st + k\<rparr>)"
    using Suc.prems by (intro Suc.IH) simp_all
  then show ?case unfolding u by (simp add: s)
qed

lemma stuck_restart:
  assumes "current_key st = ''231''" and "current_score st = score_HET"
    and "no_improvement_count st = 99" and "keys_drawn st = 1"
  shows "hc_step stuck_shuffle_at stuck_sample_at ''THE'' 3 i st
         = Inr (st\<lparr>current_key := ''123'', current_plaintext := ''THE'',
                   current_score := score_THE,
                   no_improvement_count := 0, keys_drawn := 2\<rparr>)"
  using assms stuck_compare(1)
  by (simp add: hc_step_def stuck_swap decrypt_THE_321 evaluate_EHT stuck_key1
        decrypt_THE_123 evaluate_THE Let_def max_no_improvement_def)

lemma hc_iterate_append:
  "hc_iterate sh sa ct n (xs @ ys) st =
     (case hc_iterate sh sa ct n xs st of Inl e \<Rightarrow> Inl e | Inr st' \<Rightarrow> hc_iterate sh sa ct n ys st')"
  by (induction xs arbitrary: st) (auto split: sum.splits)

lemma stuck_run_iterate:
  "hc_iterate stuck_shuffle_at stuck_sample_at ''THE'' 3 [0..<100]
     \<lparr>current_key = ''231'', current_plaintext = ''HET'', current_score = score_HET,
      best_key = ''231'', best_plaintext = ''HET'', best_score = score_HET,
      no_improvement_count = 0, keys_drawn = 1\<rparr>
   = Inr \<lparr>current_key = ''123'', current_plaintext = ''THE'', current_score = score_THE,
           best_key = ''231'', best_plaintext = ''HET'', best_score = score_HET,
           no_improvement_count = 0, keys_drawn = 2\<rparr>"
proof -
  let ?st0 = "\<lparr>current_key = ''231'', current_plaintext = ''HET'', current_score = score_HET,
                best_key = ''231'', best_plaintext = ''HET'', best_score = score_HET,
                no_improvement_count = 0, keys_drawn = 1\<rparr>"
  let ?st99 = "?st0\<lparr>no_improvement_count := no_improvement_count ?st0 + 99\<rparr>"
  have sp: "[0..<100] = [0..<0 + 99] @ [99]"
  proof -
    have "[0..<Suc 99] = [0..<99] @ [99]" by (rule upt_Suc_append) simp
    moreover have "Suc 99 = 100" by simp
    ultimately show ?thesis by (simp only: add_0)
  qed
  have a: "hc_iterate stuck_shuffle_at stuck_sample_at ''THE'' 3 [0..<0 + 99] ?st0 = Inr ?st99"
    by (rule stuck_iterate) simp_all
  have b: "hc_step stuck_shuffle_at stuck_sample_at ''THE'' 3 99 ?st99
           = Inr (?st99\<lparr>current_key := ''123'', current_plaintext := ''THE'',
                    current_score := score_THE, no_improvement_count := 0, keys_drawn := 2\<rparr>)"
    by (rule stuck_restart) simp_all
  have "hc_iterate stuck_shuffle_at stuck_sample_at ''THE'' 3 ([0..<0 + 99] @ [99]) ?st0
        = hc_iterate stuck_shuffle_at stuck_sample_at ''THE'' 3 [99] ?st99"
    by (simp only: hc_iterate_append a sum.case)
  also have "\<dots> = Inr (?st99\<lparr>current_key := ''123'', current_plaintext := ''THE'',
                    current_score := score_THE, no_improvement_count := 0, keys_drawn := 2\<rparr>)"
    by (simp only: hc_iterate.simps b sum.case)
  also have "\<dots> = Inr \<lparr>current_key = ''123'', current_plaintext = ''THE'', current_score = score_THE,
           best_key = ''231'', best_plaintext = ''HET'', best_score = score_HET,
           no_improvement_count = 0, keys_drawn = 2\<rparr>"
    by simp
  finally show ?thesis by (simp only: sp)
qed

text \<open>
  Claim C4 on this run. After 100 iterations without improvement the run restarts from the key
  \<open>123\<close>, whose plaintext \<open>THE\<close> is scored higher than the best so far; the restart key
  becomes the current key but is never compared with the best, and the run returns \<open>231\<close>
  with the lower score.
\<close>

theorem hill_climbing_misses_restart_key:
  "hill_climbing_run stuck_shuffle_at stuck_sample_at ''THE'' 3 100
     = Inr \<lparr>current_key = ''123'', current_plaintext = ''THE'', current_score = score_THE,
             best_key = ''231'', best_plaintext = ''HET'', best_score = score_HET,
             no_improvement_count = 0, keys_drawn = 2\<rparr>
   \<and> hill_climbing_attack stuck_shuffle_at stuck_sample_at ''THE'' 3 100
       = Inr (''231'', ''HET'', score_HET)
   \<and> evaluate_plaintext ''THE'' = Inr score_THE
   \<and> score_HET < score_THE"
proof -
  have run: "hill_climbing_run stuck_shuffle_at stuck_sample_at ''THE'' 3 100
     = Inr \<lparr>current_key = ''123'', current_plaintext = ''THE'', current_score = score_THE,
             best_key = ''231'', best_plaintext = ''HET'', best_score = score_HET,
             no_improvement_count = 0, keys_drawn = 2\<rparr>"
    by (simp only: hill_climbing_run_def Let_def stuck_key0 decrypt_THE_231 evaluate_HET
          sum.case stuck_run_iterate)
  then show ?thesis
    by (simp add: hill_climbing_attack_def evaluate_THE stuck_compare(2))
qed

lemma hc_step_best_mono:
  "hc_step sh sa ct n i st = Inr st' \<Longrightarrow> best_score st \<le> best_score st'"
  by (auto simp: hc_step_def Let_def split: sum.splits if_splits)

text \<open>The second half of the claim holds: the best score never decreases along a run.\<close>

theorem hc_iterate_best_mono:
  "hc_iterate sh sa ct n its st = Inr st' \<Longrightarrow> best_score st \<le> best_score st'"
proof (induction its arbitrary: st)
  case Nil
  then show ?case by simp
next
  case (Cons i its)
  from Cons.prems obtain st1 where s: "hc_step sh sa ct n i st = Inr st1"
    and r: "hc_iterate sh sa ct n its st1 = Inr st'"
    by (auto split: sum.splits)
  from hc_step_best_mono[OF s] Cons.IH[OF r] show ?case by simp
qed

theorem hc_iterate_best_mono_witness:
  "hc_iterate stuck_shuffle_at stuck_sample_at ''THE'' 3 [0..<100]
     \<lparr>current_key = ''231'', current_plaintext = ''HET'', current_score = score_HET,
      best_key = ''231'', best_plaintext = ''HET'', best_score = score_HET,
      no_improvement_count = 0, keys_drawn = 1\<rparr>
   = Inr \<lparr>current_key = ''123'', current_plaintext = ''THE'', current_score = score_THE,
           best_key = ''231'', best_plaintext = ''HET'', best_score = score_HET,
           no_improvement_count = 0, keys_drawn = 2\<rparr>
   \<and> best_score \<lparr>current_key = ''231'', current_plaintext = ''HET'', current_score = score_HET,
      best_key = ''231'', best_plaintext = ''HET'', best_score = score_HET,
      no_improvement_count = 0, keys_drawn = 1\<rparr>
     \<le> best_score \<lparr>current_key = ''123'', current_plaintext = ''THE'', current_score = score_THE,
           best_key = ''231'', best_plaintext = ''HET'', best_score = score_HET,
           no_improvement_count = 0, keys_drawn = 2\<rparr>"
  by (rule conjI[OF stuck_run_iterate hc_iterate_best_mono[OF stuck_run_iterate]])

section \<open>Genetic algorithm\<close>

text \<open>
  Claim C2 at \<open>key_length = 10\<close>. The random key is the decimal digits of a permutation of
  \<open>1..10\<close> written one after the other: eleven characters, no valid key. The initial
  population holds such keys only, and the first decryption raises.
\<close>

theorem genetic_algorithm_key_length_10:
  "generate_random_key (\<lambda>digits. digits) 10 = ''12345678910''
   \<and> \<not> validate_key ''12345678910''
   \<and> initial_population plain_random 10 2 = [''12345678910'', ''12345678910'']
   \<and> decrypt ''HELLOWORLD'' ''12345678910'' = Inl InvalidKey
   \<and> genetic_algorithm_attack plain_random ''HELLOWORLD'' 10 2 1 = Inl InvalidKey"
  by code_simp

lemma str_nat_digits: "list_all is_digit_char (str_nat n)"
proof (induction n rule: str_nat.induct)
  case (1 n)
  show ?case
  proof (cases "n < 10")
    case True
    then show ?thesis by (simp add: str_nat_small is_digit_digit_char)
  next
    case False
    have "n mod 10 \<le> 9" by simp
    then have "is_digit_char (digit_char (n mod 10))" by (rule is_digit_digit_char)
    with False 1 show ?thesis by (subst str_nat.simps) simp
  qed
qed

lemma length_concat_str_nat_mset:
  "mset ds = mset es \<Longrightarrow> length (concat (map str_nat ds)) = length (concat (map str_nat es))"
proof -
  assume m: "mset ds = mset es"
  have "length (concat (map str_nat xs)) = sum_mset (image_mset (\<lambda>d. length (str_nat d)) (mset xs))"
    for xs by (induction xs) simp_all
  with m show ?thesis by simp
qed

text \<open>This does not depend on the shuffle.\<close>

theorem generate_random_key_10_invalid:
  assumes "mset (shuffle [1..<Suc 10]) = mset [1..<Suc 10]"
  shows "length (generate_random_key shuffle 10) = 11
       \<and> \<not> validate_key (generate_random_key shuffle 10)
       \<and> decrypt ciphertext (generate_random_key shuffle 10) = Inl InvalidKey"
proof -
  let ?k = "generate_random_key shuffle 10"
  have k: "?k = concat (map str_nat (shuffle [1..<Suc 10]))"
    by (simp only: generate_random_key_def Let_def)
  have "length (concat (map str_nat [1..<Suc 10])) = 11" by code_simp
  with length_concat_str_nat_mset[OF assms] have len: "length ?k = 11" unfolding k by simp
  have dig: "list_all is_digit_char ?k"
    unfolding k by (simp add: list_all_iff) (metis list_all_iff str_nat_digits)
  have ne: "?k \<noteq> []" using len by auto
  have nv: "\<not> validate_key ?k"
  proof
    assume "validate_key ?k"
    with ne dig have "(\<lambda>c. [c]) ` set ?k = str_nat ` set [1..<Suc (length ?k)]"
      by (simp add: validate_key_def isdigit_def Let_def)
    then have "length ?k \<le> 9" by (rule validate_key_numeric_len)
    with len show False by simp
  qed
  then have "decrypt ciphertext ?k = Inl InvalidKey"
    by (simp add: decrypt_def normalize_key_def)
  with len nv show ?thesis by simp
qed

theorem generate_random_key_10_invalid_witness:
  "mset (rev [1..<Suc 10]) = mset [1..<Suc 10]
   \<and> length (generate_random_key rev 10) = 11
   \<and> \<not> validate_key (generate_random_key rev 10)
   \<and> decrypt ''HELLO'' (generate_random_key rev 10) = Inl InvalidKey"
proof -
  have m: "mset (rev [1..<Suc 10]) = mset [1..<Suc 10]" by (rule mset_rev)
  from generate_random_key_10_invalid[of rev, OF m, of "''HELLO''"] m show ?thesis by simp
qed

lemma numeric_ok_iff: "numeric_ok k \<longleftrightarrow> k \<noteq> [] \<and> is_permutation_key k"
proof
  assume ok: "numeric_ok k"
  then have ne: "k \<noteq> []" by (simp add: numeric_ok_def)
  from numeric_ok_valid[OF ok] have d: "isdigit k" and v: "validate_key k" .
  from d have dig: "list_all is_digit_char k" by (simp add: isdigit_def)
  from v d ne have "(\<lambda>c. [c]) ` set k = str_nat ` set [1..<Suc (length k)]"
    by (simp add: validate_key_def Let_def)
  with validate_key_iff_aux[OF ne dig] have "digit_value ` set k = {1..length k}" by simp
  with dig ne show "k \<noteq> [] \<and> is_permutation_key k" by (simp add: is_permutation_key_def)
next
  assume a: "k \<noteq> [] \<and> is_permutation_key k"
  then have "validate_key k" by (simp add: permutation_key_valid(1))
  moreover from a have "isdigit k" by (simp add: isdigit_def is_permutation_key_def)
  ultimately show "numeric_ok k" by (rule validate_numeric_ok)
qed

lemma numeric_ok_no_zero: "numeric_ok k \<Longrightarrow> CHR ''0'' \<notin> set k"
proof
  assume ok: "numeric_ok k" and z: "CHR ''0'' \<in> set k"
  from ok have "is_permutation_key k" by (simp add: numeric_ok_iff)
  then have "digit_value ` set k = {1..length k}" by (simp add: is_permutation_key_def)
  moreover have "digit_value (CHR ''0'') = 0" by (simp add: digit_value_def)
  ultimately have "0 \<in> {1..length k}" using z by (metis imageI)
  then show False by simp
qed

lemma numeric_ok_same_set:
  "numeric_ok k1 \<Longrightarrow> numeric_ok k2 \<Longrightarrow> length k1 = length k2 \<Longrightarrow> set k1 = set k2"
  by (simp add: numeric_ok_def)

lemma skip_placed_finds:
  "parent2_pos \<le> q \<Longrightarrow> q < length key2 \<Longrightarrow> key2 ! q \<notin> set child \<Longrightarrow>
   \<exists>p. skip_placed key2 child parent2_pos = Inr p \<and> parent2_pos \<le> p \<and> p < length key2
       \<and> key2 ! p \<notin> set child
       \<and> (\<forall>r. parent2_pos \<le> r \<and> r < p \<longrightarrow> key2 ! r \<in> set child)"
proof (induction key2 child parent2_pos rule: skip_placed.induct)
  case (1 key2 child parent2_pos)
  have lt: "parent2_pos < length key2" using "1.prems" by simp
  show ?case
  proof (cases "key2 ! parent2_pos \<in> set child")
    case False
    with lt have "skip_placed key2 child parent2_pos = Inr parent2_pos"
      by (subst skip_placed.simps) simp
    with False lt show ?thesis by auto
  next
    case True
    with "1.prems" have "parent2_pos \<noteq> q" by auto
    with "1.prems" have le: "parent2_pos + 1 \<le> q" by simp
    have nge: "\<not> length key2 \<le> parent2_pos" using lt by simp
    from "1.IH"[OF nge True le "1.prems"(2,3)] obtain p where
      p: "skip_placed key2 child (parent2_pos + 1) = Inr p" "parent2_pos + 1 \<le> p" "p < length key2"
         "key2 ! p \<notin> set child"
         "\<forall>r. parent2_pos + 1 \<le> r \<and> r < p \<longrightarrow> key2 ! r \<in> set child"
      by blast
    have "skip_placed key2 child parent2_pos = Inr p"
      using True lt p(1) by (subst skip_placed.simps) simp
    moreover have "\<forall>r. parent2_pos \<le> r \<and> r < p \<longrightarrow> key2 ! r \<in> set child"
    proof (intro allI impI)
      fix r assume r: "parent2_pos \<le> r \<and> r < p"
      show "key2 ! r \<in> set child"
      proof (cases "r = parent2_pos")
        case True
        with \<open>key2 ! parent2_pos \<in> set child\<close> show ?thesis by simp
      next
        case False
        with r have "parent2_pos + 1 \<le> r \<and> r < p" by simp
        with p(5) show ?thesis by blast
      qed
    qed
    ultimately show ?thesis using p(2,3,4) by auto
  qed
qed

lemma fold_copy_slice:
  "point2 \<le> n \<Longrightarrow>
   fold (\<lambda>i child. child[i := key1 ! i]) [point1..<point2] (replicate n z)
   = map (\<lambda>i. if point1 \<le> i \<and> i < point2 then key1 ! i else z) [0..<n]"
proof (induction point2)
  case 0
  then show ?case by (simp add: map_replicate_const)
next
  case (Suc p)
  show ?case
  proof (cases "point1 \<le> p")
    case False
    then show ?thesis using Suc.prems by (auto simp: map_replicate_const intro!: nth_equalityI)
  next
    case True
    then have u: "[point1..<Suc p] = [point1..<p] @ [p]" by simp
    have ih: "fold (\<lambda>i child. child[i := key1 ! i]) [point1..<p] (replicate n z)
              = map (\<lambda>i. if point1 \<le> i \<and> i < p then key1 ! i else z) [0..<n]"
      using Suc by simp
    show ?thesis
      unfolding u fold_append comp_def ih using Suc.prems True
      by (auto intro!: nth_equalityI simp: nth_list_update)
  qed
qed

lemma refill_has_free:
  assumes inv: "refill_inv z key2 (i # todo) child pos" and d: "distinct key2" and z: "z \<notin> set key2"
  shows "\<exists>q. pos \<le> q \<and> q < length key2 \<and> key2 ! q \<notin> set child"
proof (rule ccontr)
  assume no: "\<not> (\<exists>q. pos \<le> q \<and> q < length key2 \<and> key2 ! q \<notin> set child)"
  from inv have len: "length child = length key2" and i: "i < length key2" "child ! i = z"
    and before: "\<forall>q<pos. key2 ! q \<in> set child"
    by (auto simp: refill_inv_def)
  have "set key2 \<subseteq> set child"
  proof
    fix c assume "c \<in> set key2"
    then obtain q where q: "q < length key2" "key2 ! q = c" by (metis in_set_conv_nth)
    show "c \<in> set child"
    proof (cases "q < pos")
      case True
      with before q show ?thesis by auto
    next
      case False
      with no q show ?thesis by auto
    qed
  qed
  moreover have "z \<in> set child" using i len by (metis nth_mem)
  ultimately have "insert z (set key2) \<subseteq> set child" by simp
  then have "card (insert z (set key2)) \<le> card (set child)" by (intro card_mono) simp_all
  moreover have "card (insert z (set key2)) = Suc (length key2)"
    using z d by (simp add: distinct_card)
  moreover have "card (set child) \<le> length child" by (rule card_length)
  ultimately show False using len by simp
qed

lemma refill_step:
  assumes inv: "refill_inv z key2 (i # todo) child pos" and z: "z \<notin> set key2"
    and p: "pos \<le> p" "p < length key2" "key2 ! p \<notin> set child"
      "\<forall>r. pos \<le> r \<and> r < p \<longrightarrow> key2 ! r \<in> set child"
  shows "refill_inv z key2 todo (child[i := key2 ! p]) (p + 1)"
proof -
  let ?n = "length key2"
  let ?c = "child[i := key2 ! p]"
  from inv have len: "length child = ?n" and dt: "distinct (i # todo)"
    and st: "set (i # todo) \<subseteq> {0..<?n}"
    and zs: "\<forall>j<?n. child ! j = z \<longleftrightarrow> j \<in> set (i # todo)"
    and dc: "\<forall>a<?n. \<forall>b<?n. a \<noteq> b \<longrightarrow> child ! a \<noteq> z \<longrightarrow> child ! a \<noteq> child ! b"
    and sub: "set child - {z} \<subseteq> set key2"
    and before: "\<forall>q<pos. key2 ! q \<in> set child"
    by (simp_all add: refill_inv_def)
  from st have i: "i < ?n" by simp
  from dt have it: "i \<notin> set todo" "distinct todo" by simp_all
  have new: "key2 ! p \<in> set key2" using p(2) by simp
  with z have nz: "key2 ! p \<noteq> z" by auto
  have nth: "?c ! j = (if j = i then key2 ! p else child ! j)" if "j < ?n" for j
    using that len by (simp add: nth_list_update)
  have fresh: "child ! j \<noteq> key2 ! p" if "j < ?n" for j
    using p(3) that len by (metis nth_mem)
  have keep: "c \<in> set ?c" if c: "c \<in> set child" "c \<noteq> z" for c
  proof -
    from c(1) obtain j where j: "j < ?n" "child ! j = c" using len by (metis in_set_conv_nth)
    with c(2) zs i have "j \<noteq> i" by auto
    with j nth[OF j(1)] have "?c ! j = c" by simp
    with j(1) len show ?thesis by (metis length_list_update nth_mem)
  qed
  have 1: "length ?c = ?n" using len by simp
  have 2: "set todo \<subseteq> {0..<?n}" using st by simp
  have 3: "\<forall>j<?n. ?c ! j = z \<longleftrightarrow> j \<in> set todo"
    using nth zs nz it(1) by auto
  have 4: "\<forall>a<?n. \<forall>b<?n. a \<noteq> b \<longrightarrow> ?c ! a \<noteq> z \<longrightarrow> ?c ! a \<noteq> ?c ! b"
  proof (intro allI impI)
    fix a b assume ab: "a < ?n" "b < ?n" "a \<noteq> b" "?c ! a \<noteq> z"
    show "?c ! a \<noteq> ?c ! b"
    proof (cases "a = i")
      case True
      with ab nth[OF ab(1)] nth[OF ab(2)] fresh[OF ab(2)] show ?thesis by auto
    next
      case False
      note ai = this
      show ?thesis
      proof (cases "b = i")
        case True
        with ai ab nth[OF ab(1)] nth[OF ab(2)] fresh[OF ab(1)] show ?thesis by auto
      next
        case False
        with ai ab nth[OF ab(1)] nth[OF ab(2)] dc show ?thesis by auto
      qed
    qed
  qed
  have 5: "set ?c - {z} \<subseteq> set key2"
  proof
    fix c assume "c \<in> set ?c - {z}"
    then have "c \<in> set ?c" "c \<noteq> z" by simp_all
    then have "c \<in> insert (key2 ! p) (set child)" using set_update_subset_insert by fastforce
    with \<open>c \<noteq> z\<close> sub new show "c \<in> set key2" by auto
  qed
  have 6: "\<forall>q<p + 1. key2 ! q \<in> set ?c"
  proof (intro allI impI)
    fix q assume q: "q < p + 1"
    show "key2 ! q \<in> set ?c"
    proof (cases "q = p")
      case True
      have "?c ! i = key2 ! p" using i len by simp
      with i len True show ?thesis by (metis length_list_update nth_mem)
    next
      case False
      with q have qp: "q < p" by simp
      have "key2 ! q \<in> set child"
      proof (cases "q < pos")
        case True
        with before show ?thesis by simp
      next
        case False
        with qp p(4) show ?thesis by simp
      qed
      moreover have "key2 ! q \<noteq> z" using z qp p(2) by (metis less_trans nth_mem)
      ultimately show ?thesis by (rule keep)
    qed
  qed
  from 1 it(2) 2 3 4 5 6 p(2) show ?thesis by (simp add: refill_inv_def)
qed

lemma fill_from_parent2_ok:
  assumes "refill_inv z key2 todo child pos" "distinct key2" "z \<notin> set key2"
  shows "\<exists>child'. fill_from_parent2 key2 todo child pos = Inr child'
           \<and> length child' = length key2 \<and> distinct child' \<and> set child' \<subseteq> set key2"
  using assms
proof (induction todo arbitrary: child pos)
  case Nil
  let ?n = "length key2"
  from Nil.prems(1) have len: "length child = ?n"
    and zs: "\<forall>j<?n. child ! j \<noteq> z"
    and dc: "\<forall>a<?n. \<forall>b<?n. a \<noteq> b \<longrightarrow> child ! a \<noteq> z \<longrightarrow> child ! a \<noteq> child ! b"
    and sub: "set child - {z} \<subseteq> set key2"
    by (simp_all add: refill_inv_def)
  have "distinct child" using len zs dc by (simp add: distinct_conv_nth)
  moreover have "z \<notin> set child" using len zs by (metis in_set_conv_nth)
  ultimately show ?case using len sub by auto
next
  case (Cons i todo)
  from refill_has_free[OF Cons.prems] obtain q where
    "pos \<le> q" "q < length key2" "key2 ! q \<notin> set child" by blast
  from skip_placed_finds[OF this] obtain p where
    sk: "skip_placed key2 child pos = Inr p" and p: "pos \<le> p" "p < length key2"
      "key2 ! p \<notin> set child" "\<forall>r. pos \<le> r \<and> r < p \<longrightarrow> key2 ! r \<in> set child"
    by blast
  have "refill_inv z key2 todo (child[i := key2 ! p]) (p + 1)"
    by (rule refill_step[OF Cons.prems(1,3) p])
  from Cons.IH[OF this Cons.prems(2,3)] sk show ?case by simp
qed

text \<open>
  The operators themselves are sound: on two permutation keys of the same length (at least 2)
  and two different positions, \<^const>\<open>crossover_keys\<close> returns a permutation key of that
  length, and so does \<^const>\<open>mutate_key\<close> on one key.
\<close>

theorem crossover_keys_permutation:
  assumes k1: "is_permutation_key key1" and k2: "is_permutation_key key2"
    and len: "length key1 = length key2" and n2: "2 \<le> length key1"
    and s: "fst sample < length key1" "snd sample < length key1" "fst sample \<noteq> snd sample"
  shows "\<exists>child. crossover_keys sample key1 key2 = Inr child
           \<and> is_permutation_key child \<and> length child = length key1"
proof -
  let ?n = "length key1"
  let ?z = "CHR ''0''"
  let ?p1 = "min (fst sample) (snd sample)"
  let ?p2 = "max (fst sample) (snd sample)"
  let ?child0 = "map (\<lambda>i. if ?p1 \<le> i \<and> i < ?p2 then key1 ! i else ?z) [0..<?n]"
  let ?todo = "[0..<?p1] @ [?p2..<?n]"
  have ne: "key1 \<noteq> []" "key2 \<noteq> []" using n2 len by auto
  have ok1: "numeric_ok key1" and ok2: "numeric_ok key2"
    using k1 k2 ne by (simp_all add: numeric_ok_iff)
  have z1: "?z \<notin> set key1" and z2: "?z \<notin> set key2"
    using ok1 ok2 by (simp_all add: numeric_ok_no_zero)
  have d1: "distinct key1" and d2: "distinct key2" using ok1 ok2 by (simp_all add: numeric_ok_def)
  have same: "set key1 = set key2" by (rule numeric_ok_same_set[OF ok1 ok2 len])
  have p: "?p1 < ?p2" "?p2 < ?n" using s by auto
  have copy: "fold (\<lambda>i child. child[i := key1 ! i]) [?p1..<?p2] (replicate ?n ?z) = ?child0"
    using p(2) by (intro fold_copy_slice) simp
  have c0: "?child0 ! i = (if ?p1 \<le> i \<and> i < ?p2 then key1 ! i else ?z)" if "i < ?n" for i
    using that by simp
  have k1z: "key1 ! i \<noteq> ?z" if "i < ?n" for i using z1 that by (metis nth_mem)
  have inv: "refill_inv ?z key2 ?todo ?child0 0"
    unfolding refill_inv_def
  proof (intro conjI)
    show "length ?child0 = length key2" using len by simp
    show "distinct ?todo" using p by auto
    show "set ?todo \<subseteq> {0..<length key2}" using p len by auto
    show "\<forall>i<length key2. (?child0 ! i = ?z) = (i \<in> set ?todo)"
    proof (intro allI impI)
      fix i assume "i < length key2"
      then have i: "i < ?n" using len by simp
      show "(?child0 ! i = ?z) = (i \<in> set ?todo)"
        using c0[OF i] k1z[OF i] i by auto
    qed
    show "\<forall>i<length key2. \<forall>j<length key2. i \<noteq> j \<longrightarrow> ?child0 ! i \<noteq> ?z \<longrightarrow> ?child0 ! i \<noteq> ?child0 ! j"
    proof (intro allI impI)
      fix i j assume "i < length key2" "j < length key2" and ij: "i \<noteq> j" and nz: "?child0 ! i \<noteq> ?z"
      then have i: "i < ?n" and j: "j < ?n" using len by simp_all
      from nz c0[OF i] have ci: "?child0 ! i = key1 ! i" by (auto split: if_splits)
      have "key1 ! i \<noteq> key1 ! j" using d1 i j ij by (simp add: nth_eq_iff_index_eq)
      with ci c0[OF j] k1z[OF i] show "?child0 ! i \<noteq> ?child0 ! j" by (auto split: if_splits)
    qed
    show "set ?child0 - {?z} \<subseteq> set key2"
      unfolding same[symmetric] by auto
    show "0 \<le> length key2" by simp
    show "\<forall>q<0. key2 ! q \<in> set ?child0" by simp
  qed
  from fill_from_parent2_ok[OF inv d2 z2] obtain child where
    f: "fill_from_parent2 key2 ?todo ?child0 0 = Inr child"
    and lc: "length child = length key2" and dc: "distinct child" and sc: "set child \<subseteq> set key2"
    by blast
  have cr: "crossover_keys sample key1 key2 = Inr child"
    using n2 f by (simp add: crossover_keys_def Let_def copy)
  have "card (set child) = card (set key2)" using dc d2 lc by (simp add: distinct_card)
  with sc have "set child = set key2" by (intro card_subset_eq) simp_all
  with ok2 dc lc have "numeric_ok child" by (auto simp: numeric_ok_def)
  then have "is_permutation_key child" by (simp add: numeric_ok_iff)
  with cr lc len show ?thesis by simp
qed

theorem mutate_key_permutation:
  assumes k: "is_permutation_key key" and n2: "2 \<le> length key"
    and ij: "i < length key" "j < length key"
  shows "\<exists>key'. mutate_key (i, j) key = Inr key'
           \<and> is_permutation_key key' \<and> length key' = length key"
proof -
  let ?k = "key[i := key ! j, j := key ! i]"
  have m: "mutate_key (i, j) key = Inr ?k"
    using n2 by (simp add: mutate_key_def swap_random_positions_def)
  have "mset ?k = mset key" by (rule mset_swap[OF ij(2,1)])
  then have "set ?k = set key" by (rule mset_eq_setD)
  moreover have "length ?k = length key" by simp
  ultimately have "is_permutation_key ?k"
    using k by (simp add: is_permutation_key_def list_all_iff)
  with m show ?thesis by simp
qed

theorem crossover_keys_permutation_witness:
  "is_permutation_key ''12345'' \<and> is_permutation_key ''54321''
   \<and> length ''12345'' = length ''54321'' \<and> 2 \<le> length ''12345''
   \<and> (\<exists>child. crossover_keys (1, 3) ''12345'' ''54321'' = Inr child
          \<and> is_permutation_key child \<and> length child = length ''12345'')"
proof -
  have a: "is_permutation_key ''12345''" and b: "is_permutation_key ''54321''" by code_simp+
  have c: "length ''12345'' = length ''54321''" and d: "2 \<le> length ''12345''" by simp_all
  from crossover_keys_permutation[OF a b c d, of "(1, 3)"] a b c d show ?thesis by simp
qed

theorem mutate_key_permutation_witness:
  "is_permutation_key ''12345'' \<and> 2 \<le> length ''12345''
   \<and> (\<exists>key'. mutate_key (0, 4) ''12345'' = Inr key'
          \<and> is_permutation_key key' \<and> length key' = length ''12345'')"
proof -
  have a: "is_permutation_key ''12345''" by code_simp
  have d: "2 \<le> length ''12345''" by simp
  from mutate_key_permutation[OF a d, of 0 4] a d show ?thesis by simp
qed

lemma generate_random_key_ok:
  assumes m: "mset (shuffle [1..<Suc n]) = mset [1..<Suc n]" and n9: "n \<le> 9"
  shows "key_of_length n (generate_random_key shuffle n)"
proof -
  have "shuffle [1..<Suc n] \<in> set (permutations [1..<Suc n])"
    using m by (simp add: set_permutations)
  then have "map digit_char (shuffle [1..<Suc n]) \<in> set (key_perms n)"
    unfolding key_perms_digits[OF n9] set_map by (rule imageI)
  moreover have "\<forall>d\<in>set (shuffle [1..<Suc n]). d < 10"
  proof -
    have "set (shuffle [1..<Suc n]) = set [1..<Suc n]" using m by (rule mset_eq_setD)
    then show ?thesis unfolding set_upt_1_Suc using n9 by auto
  qed
  then have "generate_random_key shuffle n = map digit_char (shuffle [1..<Suc n])"
    by (simp only: generate_random_key_def Let_def concat_str_nat_small)
  ultimately show ?thesis using n9 by (simp add: key_perms_set key_of_length_def)
qed

lemma key_of_length_decrypt:
  assumes "key_of_length n key" "1 \<le> n"
  shows "\<exists>p s. decrypt ct key = Inr p \<and> evaluate_plaintext p = Inr s"
proof -
  from assms have ne: "key \<noteq> []" and p: "is_permutation_key key"
    by (auto simp: key_of_length_def)
  from permutation_key_valid[OF p ne] have "validate_key key" "length key \<le> 9" .
  then obtain pt where pt: "decrypt ct key = Inr pt" using decrypt_total by blast
  obtain s where "evaluate_plaintext pt = Inr s" using evaluate_plaintext_total by blast
  with pt show ?thesis by blast
qed

lemma ga_evaluate_ok:
  assumes "\<forall>key\<in>set population. key_of_length n key" "1 \<le> n"
  shows "\<exists>fitness best'. ga_evaluate ct population (acc, best) = Inr (fitness, best')
           \<and> map fst fitness = map fst acc @ population"
  using assms(1)
proof (induction population arbitrary: acc best)
  case Nil
  then show ?case by (cases best) simp
next
  case (Cons key rest)
  from Cons.prems have k: "key_of_length n key" and r: "\<forall>key\<in>set rest. key_of_length n key"
    by simp_all
  from key_of_length_decrypt[OF k assms(2)] obtain p s where
    ps: "decrypt ct key = Inr p" "evaluate_plaintext p = Inr s" by blast
  from Cons.IH[OF r, of "acc @ [(key, p, s)]"
      "if s > snd (snd best) then (Some key, Some p, s) else best"]
  show ?case using ps by simp
qed

lemma ga_refill_ok:
  assumes sel: "\<forall>key\<in>set selected. key_of_length n key" "selected \<noteq> []"
    and n: "2 \<le> n" and rnd: "ga_random_ok rnd n"
    and np: "\<forall>key\<in>set new_population. key_of_length n key"
  shows "\<exists>pop. ga_refill rnd generation selected slots new_population = Inr pop
           \<and> (\<forall>key\<in>set pop. key_of_length n key)
           \<and> length pop = length new_population + length slots"
  using np
proof (induction slots arbitrary: new_population)
  case Nil
  then show ?case by simp
next
  case (Cons child_no rest)
  let ?p1 = "selected ! (parent1_choice rnd generation child_no mod length selected)"
  let ?p2 = "selected ! (parent2_choice rnd generation child_no mod length selected)"
  have c1: "random_choice selected (parent1_choice rnd generation child_no) = Inr ?p1"
    and c2: "random_choice selected (parent2_choice rnd generation child_no) = Inr ?p2"
    using sel(2) by (simp_all add: random_choice_def)
  have "?p1 \<in> set selected" "?p2 \<in> set selected" using sel(2) by simp_all
  with sel(1) have k1: "key_of_length n ?p1" and k2: "key_of_length n ?p2" by simp_all
  let ?s = "crossover_sample rnd generation child_no"
  have s: "sample_ok n ?s" using rnd by (simp add: ga_random_ok_def)
  from k1 k2 n s obtain child where
    cr: "crossover_keys ?s ?p1 ?p2 = Inr child" and ck: "key_of_length n child"
    using crossover_keys_permutation[of ?p1 ?p2 ?s]
    by (auto simp: key_of_length_def sample_ok_def)
  let ?ms = "mutation_sample rnd generation child_no"
  have ms: "sample_ok n ?ms" using rnd by (simp add: ga_random_ok_def)
  obtain child' where
    mu: "(if mutation_draw rnd generation child_no < 0.1 then mutate_key ?ms child else Inr child)
         = Inr child'"
    and ck': "key_of_length n child'"
  proof (cases "mutation_draw rnd generation child_no < 0.1")
    case True
    from ck n ms obtain key' where "mutate_key ?ms child = Inr key'" "key_of_length n key'"
      using mutate_key_permutation[of child "fst ?ms" "snd ?ms"]
      by (auto simp: key_of_length_def sample_ok_def)
    with True that show ?thesis by simp
  next
    case False
    with ck that show ?thesis by simp
  qed
  have "\<forall>key\<in>set (new_population @ [child']). key_of_length n key"
    using Cons.prems ck' by simp
  from Cons.IH[OF this] show ?case using c1 c2 cr mu by auto
qed

lemma ga_generation_ok:
  assumes pop: "\<forall>key\<in>set population. key_of_length n key"
    and n: "2 \<le> n" and rnd: "ga_random_ok rnd n"
    and size: "length population = population_size" "population_size \<noteq> 1"
  shows "\<exists>pop' best'. ga_generation rnd ct population_size generation (population, best)
             = Inr (pop', best')
           \<and> (\<forall>key\<in>set pop'. key_of_length n key) \<and> length pop' = population_size"
proof -
  have n1: "1 \<le> n" using n by simp
  from ga_evaluate_ok[OF pop n1, of ct "[]" best] obtain fitness best' where
    ev: "ga_evaluate ct population ([], best) = Inr (fitness, best')"
    and keys: "map fst fitness = population" by auto
  let ?sorted = "sort_key (\<lambda>(key, plaintext, score). - score) fitness"
  let ?selected = "map fst (take (population_size div 2) ?sorted)"
  have "set ?selected \<subseteq> set (map fst ?sorted)"
    by (metis set_take_subset take_map)
  also have "\<dots> = set population" using keys by (metis set_map set_sort)
  finally have sel: "\<forall>key\<in>set ?selected. key_of_length n key" using pop by blast
  have lsel: "length ?selected = population_size div 2"
    using keys size(1) by (metis length_map length_sort length_take min.absorb2 div_le_dividend)
  show ?thesis
  proof (cases "population_size = 0")
    case True
    then have "?selected = []" using lsel by simp
    with ev True size(1) show ?thesis by (cases best') (simp add: ga_generation_def Let_def)
  next
    case False
    with size(2) have "2 \<le> population_size" by simp
    then have ne: "?selected \<noteq> []" using lsel by (metis div_greater_zero_iff length_0_conv less_numeral_extra(3) pos2)
    from ga_refill_ok[OF sel ne n rnd sel, of generation
        "[length ?selected..<population_size]"]
    obtain pop' where rf: "ga_refill rnd generation ?selected
          [length ?selected..<population_size] ?selected = Inr pop'"
      and ok: "\<forall>key\<in>set pop'. key_of_length n key"
      and lp: "length pop' = length ?selected + length [length ?selected..<population_size]"
      by blast
    have "length pop' = population_size" using lp lsel by simp
    with ev rf ok show ?thesis by (cases best') (simp add: ga_generation_def Let_def)
  qed
qed

text \<open>
  For key lengths from 2 to 9 the population invariant holds: whatever the random draws,
  every generation runs to its end, and the population it leaves consists of
  \<open>population_size\<close> permutation keys of the given length. (With one individual the
  selection is empty and \<^verbatim>\<open>random.choice\<close> raises.)
\<close>

theorem genetic_algorithm_population_valid:
  assumes n: "2 \<le> key_length" "key_length \<le> 9" and rnd: "ga_random_ok rnd key_length"
    and size: "population_size \<noteq> 1"
  shows "\<exists>population best.
           ga_iterate rnd ciphertext population_size [0..<generations]
             (initial_population rnd key_length population_size, (None, None, 0))
             = Inr (population, best)
           \<and> (\<forall>key\<in>set population. key_of_length key_length key)
           \<and> length population = population_size"
proof -
  have init: "\<forall>key\<in>set (initial_population rnd key_length population_size).
                key_of_length key_length key"
    using rnd n(2) by (auto simp: initial_population_def ga_random_ok_def
        intro!: generate_random_key_ok)
  have linit: "length (initial_population rnd key_length population_size) = population_size"
    by (simp add: initial_population_def)
  have "\<exists>population best'.
           ga_iterate rnd ciphertext population_size gens (pop, best) = Inr (population, best')
           \<and> (\<forall>key\<in>set population. key_of_length key_length key)
           \<and> length population = population_size"
    if "\<forall>key\<in>set pop. key_of_length key_length key" "length pop = population_size"
    for gens pop best
    using that
  proof (induction gens arbitrary: pop best)
    case Nil
    then show ?case by (cases best) simp
  next
    case (Cons g gens)
    from ga_generation_ok[OF Cons.prems(1) n(1) rnd Cons.prems(2) size, of ciphertext g best]
    obtain pop' best' where
      "ga_generation rnd ciphertext population_size g (pop, best) = Inr (pop', best')"
      "\<forall>key\<in>set pop'. key_of_length key_length key" "length pop' = population_size"
      by blast
    with Cons.IH[of pop' best'] show ?case by simp
  qed
  from this[OF init linit] show ?thesis .
qed

theorem genetic_algorithm_population_valid_witness:
  "(2::nat) \<le> 3 \<and> (3::nat) \<le> 9 \<and> ga_random_ok plain_random 3 \<and> (4::nat) \<noteq> 1
   \<and> (\<exists>population best.
           ga_iterate plain_random ''HET'' 4 [0..<2]
             (initial_population plain_random 3 4, (None, None, 0)) = Inr (population, best)
           \<and> (\<forall>key\<in>set population. key_of_length 3 key)
           \<and> length population = 4)"
proof -
  have a: "(2::nat) \<le> 3" and b: "(3::nat) \<le> 9" and c: "(4::nat) \<noteq> 1" by simp_all
  have ok: "ga_random_ok plain_random 3"
    by (simp add: ga_random_ok_def plain_random_def sample_ok_def)
  from genetic_algorithm_population_valid[OF a b ok c, of "''HET''" 2] a b ok c
  show ?thesis by blast
qed

end

